theory Spec2Isabelle
  imports Main "HOL-Library.Word" "HOL-Library.Multiset"
begin

section \<open>The custom operator dispatcher of \<^verbatim>\<open>src/operator/custom/custom-inl.h\<close>\<close>

text \<open>
  The class \<^verbatim>\<open>CustomOperator\<close> keeps a registry of operator creators and runs
  the callbacks of custom operators, inline (naive engine) or on a pool of worker
  threads fed by one queue. The embedding below follows the header member by member.
  Calls that leave the class (the user callback, \<^verbatim>\<open>LOG(WARNING)\<close>,
  \<^verbatim>\<open>Engine::PushSync\<close>, \<^verbatim>\<open>ctx.async_on_complete\<close>, thread creation and
  \<^verbatim>\<open>join\<close>, \<^verbatim>\<open>notify_all\<close>) are written to a trace of events, in the order
  in which the code makes them.
\<close>

subsection \<open>Data\<close>

text \<open>The storage kinds of \<^verbatim>\<open>mxnet/ndarray.h\<close> that the header tests for.\<close>

datatype NDArrayStorageType =
  kUndefinedStorage | kDefaultStorage | kRowSparseStorage | kCSRStorage

text \<open>
  An \<^verbatim>\<open>NDArray\<close> handle: its storage kind, its engine variable and the address
  of the chunk it points to. Copies of a handle share the chunk; what a chunk holds
  lives in the store \<open>shandle\<close> below.
\<close>

record NDArray =
  storage_type :: NDArrayStorageType
  var :: nat
  ptr :: nat

text \<open>
  What the user callback can read and write: the two flags of \<^verbatim>\<open>Imperative\<close>
  and the storage handle held by every chunk.
\<close>

record ambient =
  is_recording :: bool
  is_training :: bool
  shandle :: "nat \<Rightarrow> nat"

text \<open>
  The arguments of \<^verbatim>\<open>Push\<close>, which the queued closure captures by value.
  \<open>ctx\<close> names the \<^verbatim>\<open>OpContext\<close> whose \<^verbatim>\<open>async_on_complete\<close> is called.
\<close>

record task =
  func :: "ambient \<Rightarrow> ambient"
  ctx :: nat
  recording :: bool
  training :: bool
  arrs :: "NDArray list"
  tags :: "int list"
  output_tags :: "int set"
  outputs :: "NDArray list"

text \<open>
  A worker thread, by the point of \<^verbatim>\<open>ThreadTarget\<close> it stands at:
  \<^item> \<open>Created\<close>: started, not yet holding the mutex (function entry);
  \<^item> \<open>Waiting\<close>: blocked in \<^verbatim>\<open>cv_.wait\<close>, mutex released;
  \<^item> \<open>Woken\<close>: woken in \<^verbatim>\<open>cv_.wait\<close>, about to take the mutex again and test
    the predicate;
  \<^item> \<open>Running fn\<close>: has popped \<open>fn\<close> and unlocked, \<^verbatim>\<open>fn()\<close> not yet run;
  \<^item> \<open>Returned\<close>: \<^verbatim>\<open>fn()\<close> has returned, \<^verbatim>\<open>++num_free_threads\<close> not yet done;
  \<^item> \<open>Relock\<close>: at \<^verbatim>\<open>lock.lock()\<close>;
  \<^item> \<open>Exited\<close>: left the outer loop, thread finished.
\<close>

datatype worker = Created | Waiting | Woken | Running task | Returned | Relock | Exited

datatype event =
    LogWarning string
  | CallFunc bool bool
  | CallSparseUpdateChunk NDArray NDArray
  | AsyncOnComplete nat
  | PushSync nat "nat list" "nat list"
  | QPush task
  | QPop task
  | FnReturned task
  | SpawnThread
  | NotifyAll
  | Join nat

text \<open>The destructor: not called, in its join loop at an index, or returned.\<close>

datatype dtor_pc = NotStarted | Joining nat | Finished

text \<open>
  The process environment as \<^verbatim>\<open>dmlc::GetEnv\<close> reads it; the thread limit is the
  32-bit \<^verbatim>\<open>int\<close> that the call parses.
\<close>

record environ =
  MXNET_ENGINE_TYPE :: "string option"
  MXNET_CUSTOM_OP_NUM_THREADS :: "32 word option"

type_synonym CustomOpPropCreator = nat

definition nullptr :: CustomOpPropCreator where
  "nullptr = 0"

text \<open>
  The members of \<^verbatim>\<open>CustomOperator\<close> (the header's names without their trailing
  underscore; \<open>queue\<close> is \<^verbatim>\<open>q_\<close>), then what is outside the class. \<open>mutex\<close> is
  \<open>True\<close> while a pooled \<^verbatim>\<open>Push\<close> holds the mutex between its two loads of
  \<^verbatim>\<open>num_free_threads\<close> (every other critical section is one step); \<open>engine\<close>
  holds the closures handed to \<^verbatim>\<open>Engine::PushSync\<close> and not yet run; \<open>dtor\<close> is
  the point the destructor stands at.
\<close>

record state =
  registry :: "string \<rightharpoonup> CustomOpPropCreator"
  workers :: "worker list"
  num_free_threads :: "32 word"
  queue :: "task list"
  naive_engine :: bool
  destructing :: bool
  mutex :: bool
  getenv :: environ
  imperative :: ambient
  engine :: "task list"
  dtor :: dtor_pc
  trace :: "event list"

subsection \<open>Construction\<close>

text \<open>
  \<^verbatim>\<open>CustomOperator()\<close>: no worker, no free thread, and the naive engine exactly
  when \<^verbatim>\<open>MXNET_ENGINE_TYPE\<close> is \<^verbatim>\<open>NaiveEngine\<close> (an unset variable reads as the
  empty string).
\<close>

definition GetEnv :: "'a option \<Rightarrow> 'a \<Rightarrow> 'a" where
  "GetEnv v dflt = (case v of None \<Rightarrow> dflt | Some x \<Rightarrow> x)"

definition CustomOperator :: "environ \<Rightarrow> ambient \<Rightarrow> state" where
  "CustomOperator e a =
     \<lparr> registry = Map.empty, workers = [], num_free_threads = 0, queue = [],
       naive_engine = (''NaiveEngine'' = GetEnv (MXNET_ENGINE_TYPE e) ''''),
       destructing = False, mutex = False, getenv = e, imperative = a,
       engine = [], dtor = NotStarted, trace = [] \<rparr>"

definition emit :: "event \<Rightarrow> state \<Rightarrow> state" where
  "emit ev s = s\<lparr>trace := trace s @ [ev]\<rparr>"

text \<open>\<^verbatim>\<open>cv_.notify_all()\<close> wakes every thread that is blocked in \<^verbatim>\<open>cv_.wait\<close>.\<close>

fun wake :: "worker \<Rightarrow> worker" where
  "wake Waiting = Woken"
| "wake w = w"

definition notify_all :: "state \<Rightarrow> state" where
  "notify_all s = emit NotifyAll (s\<lparr>workers := map wake (workers s)\<rparr>)"

subsection \<open>Registry\<close>

definition overriding :: "string \<Rightarrow> string" where
  "overriding op_type =
     ''New registration is overriding existing custom operator '' @ op_type"

definition Register :: "string \<Rightarrow> CustomOpPropCreator \<Rightarrow> state \<Rightarrow> state" where
  "Register op_type creator s =
     (let s1 = (if registry s op_type \<noteq> None
                then emit (LogWarning (overriding op_type)) s
                else s)
      in s1\<lparr>registry := (registry s1)(op_type \<mapsto> creator)\<rparr>)"

definition Find :: "string \<Rightarrow> state \<Rightarrow> CustomOpPropCreator" where
  "Find op_type s =
     (case registry s op_type of Some creator \<Rightarrow> creator | None \<Rightarrow> nullptr)"

text \<open>A sequence of \<^verbatim>\<open>Register\<close> calls, in order.\<close>

fun Registers :: "(string \<times> CustomOpPropCreator) list \<Rightarrow> state \<Rightarrow> state" where
  "Registers [] s = s"
| "Registers ((op_type, creator) # rest) s = Registers rest (Register op_type creator s)"

fun warnings :: "event list \<Rightarrow> string list" where
  "warnings [] = []"
| "warnings (LogWarning m # es) = m # warnings es"
| "warnings (_ # es) = warnings es"

text \<open>
  The positions, in a sequence of \<^verbatim>\<open>Register\<close> calls, of the calls whose name an
  earlier call of the sequence has registered already.
\<close>

definition overwrites :: "(string \<times> CustomOpPropCreator) list \<Rightarrow> nat list" where
  "overwrites ops = filter (\<lambda>i. fst (ops ! i) \<in> fst ` set (take i ops)) [0..<length ops]"

subsection \<open>Calls that leave the class\<close>

text \<open>
  Modelled from the spec: \<^verbatim>\<open>Imperative::set_is_recording\<close> and
  \<^verbatim>\<open>Imperative::set_is_training\<close> are declared in \<^verbatim>\<open>mxnet/imperative.h\<close>, which
  is not part of the sources at hand. They install the given value and return the value
  that was there before.
\<close>

definition set_is_recording :: "bool \<Rightarrow> state \<Rightarrow> bool \<times> state" where
  "set_is_recording b s =
     (is_recording (imperative s), s\<lparr>imperative := (imperative s)\<lparr>is_recording := b\<rparr>\<rparr>)"

definition set_is_training :: "bool \<Rightarrow> state \<Rightarrow> bool \<times> state" where
  "set_is_training b s =
     (is_training (imperative s), s\<lparr>imperative := (imperative s)\<lparr>is_training := b\<rparr>\<rparr>)"

text \<open>
  Modelled from the spec: \<^verbatim>\<open>NDArray::SparseUpdateChunk\<close> is declared in
  \<^verbatim>\<open>mxnet/ndarray.h\<close>, which is not part of the sources at hand. After the call the
  chunk of the receiver holds the storage of the chunk of the argument.
\<close>

definition SparseUpdateChunk :: "NDArray \<Rightarrow> NDArray \<Rightarrow> state \<Rightarrow> state" where
  "SparseUpdateChunk dst src s =
     emit (CallSparseUpdateChunk dst src)
       (s\<lparr>imperative := (imperative s)
            \<lparr>shandle := (shandle (imperative s))(ptr dst := shandle (imperative s) (ptr src))\<rparr>\<rparr>)"

text \<open>
  The user callback \<^verbatim>\<open>func()\<close>: the trace keeps the flags it finds on entry, then
  the callback does what it does to the flags and the chunks.
\<close>

definition call_func :: "(ambient \<Rightarrow> ambient) \<Rightarrow> state \<Rightarrow> state" where
  "call_func f s =
     (emit (CallFunc (is_recording (imperative s)) (is_training (imperative s))) s)
       \<lparr>imperative := f (imperative s)\<rparr>"

definition async_on_complete :: "nat \<Rightarrow> state \<Rightarrow> state" where
  "async_on_complete c s = emit (AsyncOnComplete c) s"

text \<open>
  \<^verbatim>\<open>Engine::Get()->PushSync(closure, ctx, vars, vars2, ...)\<close>: the engine keeps the
  closure, which captures the arguments of \<^verbatim>\<open>Push\<close>, to run it later.
\<close>

definition Engine_PushSync :: "task \<Rightarrow> nat list \<Rightarrow> nat list \<Rightarrow> state \<Rightarrow> state" where
  "Engine_PushSync t vars vars2 s =
     emit (PushSync (ctx t) vars vars2) (s\<lparr>engine := engine s @ [t]\<rparr>)"

subsection \<open>The sparse update loop\<close>

text \<open>
  \<^verbatim>\<open>operator[]\<close> past the end of a vector is undefined behaviour; the model stops
  with an error there.
\<close>

datatype error = OutOfRange

text \<open>
  Lines 82 to 90, and again lines 119 to 127 (the same text):
  \<^verbatim>\<open>for (size_t i = 0, out_idx = 0; i < arrs.size(); i++)\<close>.
\<close>

function sparse_loop :: "task \<Rightarrow> nat \<Rightarrow> nat \<Rightarrow> state \<Rightarrow> error + state" where
  "sparse_loop t i out_idx s =
     (if i < length (arrs t) then
        if storage_type (arrs t ! i) = kDefaultStorage \<or>
           storage_type (arrs t ! i) = kUndefinedStorage
        then sparse_loop t (i + 1) out_idx s
        else if \<not> i < length (tags t) then Inl OutOfRange
        else if tags t ! i \<in> output_tags t then
          if \<not> out_idx < length (outputs t) then Inl OutOfRange
          else sparse_loop t (i + 1) (out_idx + 1)
                 (SparseUpdateChunk (outputs t ! out_idx) (arrs t ! i) s)
        else sparse_loop t (i + 1) out_idx s
      else Inr s)"
  by pat_completeness auto
termination
  by (relation "measure (\<lambda>(t, i, out_idx, s). length (arrs t) - i)") auto

text \<open>The closure handed to \<^verbatim>\<open>Engine::PushSync\<close> (lines 118 to 129).\<close>

definition patch_closure :: "task \<Rightarrow> state \<Rightarrow> error + state" where
  "patch_closure t s =
     (case sparse_loop t 0 0 s of
        Inl e \<Rightarrow> Inl e
      | Inr s' \<Rightarrow> Inr (async_on_complete (ctx t) s'))"

subsection \<open>The queued closure\<close>

text \<open>
  Lines 104 to 115: \<^verbatim>\<open>for (const auto& i : arrs)\<close> with the counter \<open>idx\<close>; the
  \<^verbatim>\<open>continue\<close> leaves \<open>idx\<close> as it is.
\<close>

fun vars_loop ::
  "NDArray list \<Rightarrow> int list \<Rightarrow> int set \<Rightarrow> nat \<Rightarrow> nat list \<Rightarrow> nat list
     \<Rightarrow> error + (nat \<times> nat list \<times> nat list)" where
  "vars_loop [] tgs otags idx vars vars2 = Inr (idx, vars, vars2)"
| "vars_loop (i # rest) tgs otags idx vars vars2 =
     (if \<not> idx < length tgs then Inl OutOfRange
      else if tgs ! idx \<in> otags then
        if storage_type i = kDefaultStorage \<or> storage_type i = kUndefinedStorage
        then vars_loop rest tgs otags idx (vars @ [var i]) vars2
        else vars_loop rest tgs otags (idx + 1) (vars @ [var i]) (vars2 @ [var i])
      else vars_loop rest tgs otags idx (vars @ [var i]) vars2)"

text \<open>The closure pushed to the queue (lines 95 to 132).\<close>

definition queued_lambda :: "task \<Rightarrow> state \<Rightarrow> error + state" where
  "queued_lambda t s =
     (let (prev_recording, s1) = set_is_recording (recording t) s;
          (prev_training, s2) = set_is_training (training t) s1;
          s3 = call_func (func t) s2;
          s4 = snd (set_is_training prev_training s3);
          s5 = snd (set_is_recording prev_recording s4)
      in case vars_loop (arrs t) (tags t) (output_tags t) 0 [] [] of
           Inl e \<Rightarrow> Inl e
         | Inr (idx, vars, vars2) \<Rightarrow> Inr (Engine_PushSync t vars vars2 s5))"

subsection \<open>The worker pool\<close>

text \<open>
  Conversion to \<^verbatim>\<open>int\<close>: the value modulo \<open>2 ^ 32\<close>, read as two's complement.
\<close>

definition static_cast_int :: "int \<Rightarrow> int" where
  "static_cast_int x = signed_take_bit 31 x"

text \<open>
  Lines 177 to 180: \<^verbatim>\<open>for (int i = workers_.size(); i < num_threads; ++i)\<close>, each
  round starting a thread and counting it as free.
\<close>

function SetNumThreads_loop :: "int \<Rightarrow> int \<Rightarrow> state \<Rightarrow> state" where
  "SetNumThreads_loop i num_threads s =
     (if i < num_threads
      then SetNumThreads_loop (i + 1) num_threads
             ((emit SpawnThread (s\<lparr>workers := workers s @ [Created]\<rparr>))
                \<lparr>num_free_threads := num_free_threads s + 1\<rparr>)
      else s)"
  by pat_completeness auto
termination
  by (relation "measure (\<lambda>(i, num_threads, s). nat (num_threads - i))") auto

definition SetNumThreads :: "int \<Rightarrow> state \<Rightarrow> state" where
  "SetNumThreads num_threads s =
     (let num_threads' =
            min (sint (GetEnv (MXNET_CUSTOM_OP_NUM_THREADS (getenv s)) 16)) num_threads
      in SetNumThreads_loop (static_cast_int (int (length (workers s)))) num_threads' s)"

definition CreateThreads :: "int \<Rightarrow> state \<Rightarrow> state" where
  "CreateThreads num_new_threads s =
     SetNumThreads (static_cast_int (int (length (workers s)) + num_new_threads)) s"

text \<open>
  \<^verbatim>\<open>ThreadTarget\<close>, from a point where the thread holds the mutex up to the point
  where it lets the mutex go: the test of the outer \<^verbatim>\<open>while\<close>, the predicate of
  \<^verbatim>\<open>cv_.wait\<close>, the test of the inner \<^verbatim>\<open>while\<close>. The result is where the thread
  stands then.
\<close>

datatype label = OuterWhile | CvWait | InnerWhile

function ThreadTarget :: "label \<Rightarrow> state \<Rightarrow> worker \<times> state" where
  "ThreadTarget OuterWhile s =
     (if queue s \<noteq> [] \<or> \<not> destructing s then ThreadTarget CvWait s else (Exited, s))"
| "ThreadTarget CvWait s =
     (if queue s \<noteq> [] \<or> destructing s then ThreadTarget InnerWhile s else (Waiting, s))"
| "ThreadTarget InnerWhile s =
     (if queue s \<noteq> []
      then (Running (hd (queue s)),
            emit (QPop (hd (queue s)))
              (s\<lparr>num_free_threads := num_free_threads s - 1, queue := tl (queue s)\<rparr>))
      else ThreadTarget OuterWhile s)"
  by pat_completeness auto
termination
  by (relation "measure (\<lambda>(l, s).
        if queue s \<noteq> [] then (case l of InnerWhile \<Rightarrow> 0 | CvWait \<Rightarrow> 1 | OuterWhile \<Rightarrow> 2)
        else if destructing s then (case l of OuterWhile \<Rightarrow> 0 | InnerWhile \<Rightarrow> 1 | CvWait \<Rightarrow> 2)
        else (case l of CvWait \<Rightarrow> 0 | OuterWhile \<Rightarrow> 1 | InnerWhile \<Rightarrow> 2))") auto

text \<open>Where a thread that asks for the mutex goes on.\<close>

fun resume :: "worker \<Rightarrow> label option" where
  "resume Created = Some OuterWhile"
| "resume Woken = Some CvWait"
| "resume Relock = Some InnerWhile"
| "resume _ = None"

subsection \<open>Push\<close>

text \<open>Lines 81 to 92, the naive engine.\<close>

definition Push_naive :: "task \<Rightarrow> state \<Rightarrow> error + state" where
  "Push_naive t s =
     (case sparse_loop t 0 0 (call_func (func t) s) of
        Inl e \<Rightarrow> Inl e
      | Inr s' \<Rightarrow> Inr (async_on_complete (ctx t) s'))"

text \<open>
  Lines 94 to 134: lock, \<^verbatim>\<open>q_.push\<close> and the test
  \<^verbatim>\<open>q_.size() > num_free_threads\<close>. When the test fails, \<^verbatim>\<open>notify_all\<close> and the
  return follow at once. When it holds, the mutex stays taken: \<^verbatim>\<open>Push\<close> is about
  to load \<^verbatim>\<open>num_free_threads\<close> again, and a worker that has come back from its task
  may add one to it in between, since it does so without the mutex.
\<close>

definition Push_enqueue :: "task \<Rightarrow> state \<Rightarrow> state" where
  "Push_enqueue t s =
     (let s1 = emit (QPush t) (s\<lparr>queue := queue s @ [t]\<rparr>)
      in if length (queue s1) > unat (num_free_threads s1)
         then s1\<lparr>mutex := True\<rparr>
         else notify_all s1)"

text \<open>
  Lines 135 to 137: \<^verbatim>\<open>CreateThreads(q_.size() - num_free_threads)\<close>, the difference
  taken in \<^verbatim>\<open>size_t\<close> and converted to \<^verbatim>\<open>int\<close>, then \<^verbatim>\<open>notify_all\<close> and unlock.
\<close>

definition Push_grow :: "state \<Rightarrow> state" where
  "Push_grow s =
     (notify_all
        (CreateThreads
           (static_cast_int (int (length (queue s)) - int (unat (num_free_threads s)))) s))
       \<lparr>mutex := False\<rparr>"

text \<open>\<^verbatim>\<open>Push\<close> when no other thread takes a step between its two loads.\<close>

definition Push :: "task \<Rightarrow> state \<Rightarrow> error + state" where
  "Push t s =
     (if naive_engine s then Push_naive t s
      else let s1 = Push_enqueue t s in Inr (if mutex s1 then Push_grow s1 else s1))"

subsection \<open>The destructor\<close>

text \<open>Lines 140 to 145: return at once under the naive engine, else raise the flag.\<close>

definition dtor_begin :: "state \<Rightarrow> state" where
  "dtor_begin s =
     (if naive_engine s then s\<lparr>dtor := Finished\<rparr>
      else notify_all (s\<lparr>destructing := True, dtor := Joining 0\<rparr>))"

text \<open>Lines 146 and 147: \<^verbatim>\<open>worker.join()\<close> returns once the thread has finished.\<close>

definition dtor_join :: "nat \<Rightarrow> state \<Rightarrow> state" where
  "dtor_join k s = emit (Join k) (s\<lparr>dtor := Joining (k + 1)\<rparr>)"

subsection \<open>The threads together\<close>

text \<open>
  One step of one thread. A critical section is one step, since no other thread can
  enter one meanwhile; what a thread does without the mutex (running the closure it
  popped, \<^verbatim>\<open>++num_free_threads\<close>) is a step of its own. The closure runs as one
  step: what it touches (the flags, the chunks, the engine) is outside the pool.
  A thread blocked in \<^verbatim>\<open>cv_.wait\<close> goes on after \<^verbatim>\<open>notify_all\<close>, or after a
  spurious wakeup, which may come at any time; it then tests the predicate again.
  \<^verbatim>\<open>Push\<close> is not called once the destructor has begun (the spec leaves such a call
  undefined, and the destructor reads \<^verbatim>\<open>workers_\<close> without the mutex).
\<close>

inductive step :: "state \<Rightarrow> state \<Rightarrow> bool" where
  worker_locked:
    "\<not> mutex s \<Longrightarrow> k < length (workers s) \<Longrightarrow> resume (workers s ! k) = Some l \<Longrightarrow>
     ThreadTarget l s = (w, s') \<Longrightarrow>
     step s (s'\<lparr>workers := (workers s')[k := w]\<rparr>)"
| spurious_wakeup:
    "k < length (workers s) \<Longrightarrow> workers s ! k = Waiting \<Longrightarrow>
     step s (s\<lparr>workers := (workers s)[k := Woken]\<rparr>)"
| worker_fn:
    "k < length (workers s) \<Longrightarrow> workers s ! k = Running fn \<Longrightarrow>
     queued_lambda fn s = Inr s' \<Longrightarrow>
     step s ((emit (FnReturned fn) s')\<lparr>workers := (workers s')[k := Returned]\<rparr>)"
| worker_incr:
    "k < length (workers s) \<Longrightarrow> workers s ! k = Returned \<Longrightarrow>
     step s (s\<lparr>num_free_threads := num_free_threads s + 1,
               workers := (workers s)[k := Relock]\<rparr>)"
| push_naive:
    "naive_engine s \<Longrightarrow> dtor s = NotStarted \<Longrightarrow> Push_naive t s = Inr s' \<Longrightarrow> step s s'"
| push_enqueue:
    "\<not> naive_engine s \<Longrightarrow> \<not> mutex s \<Longrightarrow> dtor s = NotStarted \<Longrightarrow>
     step s (Push_enqueue t s)"
| push_grow:
    "mutex s \<Longrightarrow> step s (Push_grow s)"
| register:
    "\<not> mutex s \<Longrightarrow> step s (Register op_type creator s)"
| engine_run:
    "engine s = before @ t # after \<Longrightarrow>
     patch_closure t (s\<lparr>engine := before @ after\<rparr>) = Inr s' \<Longrightarrow> step s s'"
| destructor_begin:
    "\<not> mutex s \<Longrightarrow> dtor s = NotStarted \<Longrightarrow> step s (dtor_begin s)"
| destructor_join:
    "dtor s = Joining k \<Longrightarrow> k < length (workers s) \<Longrightarrow> workers s ! k = Exited \<Longrightarrow>
     step s (dtor_join k s)"
| destructor_end:
    "dtor s = Joining k \<Longrightarrow> \<not> k < length (workers s) \<Longrightarrow> step s (s\<lparr>dtor := Finished\<rparr>)"

inductive reachable :: "state \<Rightarrow> bool" where
  constructed: "reachable (CustomOperator e a)"
| stepped: "reachable s \<Longrightarrow> step s s' \<Longrightarrow> reachable s'"

subsection \<open>Reading the trace\<close>

fun enqueued :: "event list \<Rightarrow> task list" where
  "enqueued [] = []"
| "enqueued (QPush t # es) = t # enqueued es"
| "enqueued (_ # es) = enqueued es"

fun dequeued :: "event list \<Rightarrow> task list" where
  "dequeued [] = []"
| "dequeued (QPop t # es) = t # dequeued es"
| "dequeued (_ # es) = dequeued es"

fun executed :: "event list \<Rightarrow> task list" where
  "executed [] = []"
| "executed (FnReturned t # es) = t # executed es"
| "executed (_ # es) = executed es"

fun joined :: "event list \<Rightarrow> nat list" where
  "joined [] = []"
| "joined (Join k # es) = k # joined es"
| "joined (_ # es) = joined es"

text \<open>The tasks that workers have popped and whose closure has not returned yet.\<close>

fun held :: "worker list \<Rightarrow> task list" where
  "held [] = []"
| "held (Running t # ws) = t # held ws"
| "held (_ # ws) = held ws"

text \<open>A worker counts as free from its creation, except while it runs a closure.\<close>

fun free :: "worker \<Rightarrow> bool" where
  "free (Running t) = False"
| "free Returned = False"
| "free _ = True"

subsection \<open>Notions used to state the properties\<close>

text \<open>An array whose storage is neither dense nor undefined.\<close>

definition sparse :: "NDArray \<Rightarrow> bool" where
  "sparse a \<longleftrightarrow> storage_type a \<noteq> kDefaultStorage \<and> storage_type a \<noteq> kUndefinedStorage"

text \<open>
  The qualifying entries of a call, in the order of \<open>arrs\<close>: those that are sparse and
  whose tag is an output tag. \<open>qualifying_from t i\<close> are those at positions \<open>i\<close> and
  above.
\<close>

definition qualifying_from :: "task \<Rightarrow> nat \<Rightarrow> NDArray list" where
  "qualifying_from t i =
     map fst (filter (\<lambda>(a, tg). sparse a \<and> tg \<in> output_tags t) (drop i (zip (arrs t) (tags t))))"

definition qualifying :: "task \<Rightarrow> NDArray list" where
  "qualifying t =
     map fst (filter (\<lambda>(a, tg). sparse a \<and> tg \<in> output_tags t) (zip (arrs t) (tags t)))"

text \<open>
  The reconciliation pass as the spec words it: the \<open>k\<close>-th output is rebound to the
  \<open>k\<close>-th qualifying entry, for \<open>k\<close> counting up.
\<close>

definition rebind_all :: "(NDArray \<times> NDArray) list \<Rightarrow> state \<Rightarrow> state" where
  "rebind_all ps s = foldl (\<lambda>s' (dst, src). SparseUpdateChunk dst src s') s ps"

definition reconciliation :: "task \<Rightarrow> state \<Rightarrow> state" where
  "reconciliation t s = rebind_all (zip (outputs t) (qualifying t)) s"

text \<open>
  What the calls of \<^verbatim>\<open>SparseUpdateChunk\<close> on the pairs \<open>ps\<close>, in order, leave of what the
  callback can see.
\<close>

definition rebound :: "(NDArray \<times> NDArray) list \<Rightarrow> ambient \<Rightarrow> ambient" where
  "rebound ps a =
     foldl (\<lambda>a' (dst, src). a'\<lparr>shandle := (shandle a')(ptr dst := shandle a' (ptr src))\<rparr>) a ps"

fun completions :: "event list \<Rightarrow> nat list" where
  "completions [] = []"
| "completions (AsyncOnComplete c # es) = c # completions es"
| "completions (_ # es) = completions es"

text \<open>The thread limit that \<^verbatim>\<open>SetNumThreads\<close> reads, 16 when the variable is unset.\<close>

definition cap :: "state \<Rightarrow> int" where
  "cap s = sint (GetEnv (MXNET_CUSTOM_OP_NUM_THREADS (getenv s)) 16)"

text \<open>The number of threads that \<^verbatim>\<open>SetNumThreads\<close> starts.\<close>

definition spawned :: "state \<Rightarrow> int \<Rightarrow> nat" where
  "spawned s num_threads =
     nat (min (cap s) num_threads - static_cast_int (int (length (workers s))))"

text \<open>
  The part of the state that the pool's invariants speak about: the workers, the count
  of free threads, the queue, the flags, and what the trace says about the queue, the
  closures run and the joins.
\<close>

record pool =
  p_workers :: "worker list"
  p_free :: "32 word"
  p_queue :: "task list"
  p_naive :: bool
  p_destructing :: bool
  p_mutex :: bool
  p_cap :: int
  p_dtor :: dtor_pc
  p_enqueued :: "task list"
  p_dequeued :: "task list"
  p_executed :: "task list"
  p_joined :: "nat list"

definition pool_of :: "state \<Rightarrow> pool" where
  "pool_of s =
     \<lparr> p_workers = workers s, p_free = num_free_threads s, p_queue = queue s,
       p_naive = naive_engine s, p_destructing = destructing s, p_mutex = mutex s,
       p_cap = cap s, p_dtor = dtor s,
       p_enqueued = enqueued (trace s), p_dequeued = dequeued (trace s),
       p_executed = executed (trace s), p_joined = joined (trace s) \<rparr>"

text \<open>The invariants of the reachable states, proved below.\<close>

definition inv_size :: "pool \<Rightarrow> bool" where
  "inv_size P \<longleftrightarrow> int (length (p_workers P)) \<le> max 0 (p_cap P) \<and> p_cap P < 2 ^ 31"

definition inv_free :: "pool \<Rightarrow> bool" where
  "inv_free P \<longleftrightarrow> unat (p_free P) = length (filter free (p_workers P))"

definition inv_fifo :: "pool \<Rightarrow> bool" where
  "inv_fifo P \<longleftrightarrow> p_enqueued P = p_dequeued P @ p_queue P"

definition inv_held :: "pool \<Rightarrow> bool" where
  "inv_held P \<longleftrightarrow> mset (p_dequeued P) = mset (p_executed P) + mset (held (p_workers P))"

definition inv_single :: "pool \<Rightarrow> bool" where
  "inv_single P \<longleftrightarrow> p_dequeued P = p_executed P @ held (p_workers P)"

definition inv_shutdown :: "pool \<Rightarrow> bool" where
  "inv_shutdown P \<longleftrightarrow>
     (p_destructing P \<longrightarrow> p_dtor P \<noteq> NotStarted) \<and>
     (p_mutex P \<longrightarrow> p_dtor P = NotStarted) \<and>
     (Exited \<in> set (p_workers P) \<longrightarrow> p_queue P = [] \<and> p_destructing P) \<and>
     (p_naive P \<longrightarrow> p_workers P = [] \<and> \<not> p_destructing P \<and> \<not> p_mutex P)"

definition inv_join :: "pool \<Rightarrow> bool" where
  "inv_join P \<longleftrightarrow>
     (p_dtor P = NotStarted \<longrightarrow> p_joined P = []) \<and>
     (\<forall>k. p_dtor P = Joining k \<longrightarrow>
        k \<le> length (p_workers P) \<and> (\<forall>j<k. p_workers P ! j = Exited) \<and>
        p_joined P = [0..<k]) \<and>
     (p_dtor P = Finished \<longrightarrow>
        p_naive P \<and> p_joined P = [] \<or>
        (\<forall>j<length (p_workers P). p_workers P ! j = Exited) \<and>
        p_joined P = [0..<length (p_workers P)])"

definition inv_first :: "pool \<Rightarrow> bool" where
  "inv_first P \<longleftrightarrow>
     (\<not> p_naive P \<and> 1 \<le> p_cap P \<and> p_workers P = [] \<longrightarrow>
        (p_mutex P \<longrightarrow> length (p_queue P) = 1) \<and> (\<not> p_mutex P \<longrightarrow> p_enqueued P = []))"

definition inv_awake :: "pool \<Rightarrow> bool" where
  "inv_awake P \<longleftrightarrow> (p_destructing P \<longrightarrow> Waiting \<notin> set (p_workers P))"

text \<open>
  What is left to do once the destructor has begun: three for each task in the queue,
  for each worker the steps from where it stands to its next test of the loops, and
  for the destructor two for each join to come and one for its return.
\<close>

fun rank :: "worker \<Rightarrow> nat" where
  "rank Created = 1"
| "rank Waiting = 2"
| "rank Woken = 1"
| "rank (Running fn) = 3"
| "rank Returned = 2"
| "rank Relock = 1"
| "rank Exited = 0"

fun dtor_rank :: "dtor_pc \<Rightarrow> nat \<Rightarrow> nat" where
  "dtor_rank NotStarted n = 0"
| "dtor_rank (Joining k) n = 2 * (n - k) + 1"
| "dtor_rank Finished n = 0"

definition pool_measure :: "pool \<Rightarrow> nat" where
  "pool_measure P =
     3 * length (p_queue P) + sum_list (map rank (p_workers P))
       + dtor_rank (p_dtor P) (length (p_workers P))"

definition shutdown_measure :: "state \<Rightarrow> nat" where
  "shutdown_measure s = pool_measure (pool_of s)"

subsection \<open>Schedules\<close>

text \<open>
  A schedule names the steps of a run one by one, so that a run can be computed:
  \<open>Enqueue\<close> and \<open>Grow\<close> are the two halves of a pooled \<^verbatim>\<open>Push\<close>, \<open>Lock k\<close> lets worker
  \<open>k\<close> take the mutex, \<open>Wake k\<close> wakes it spuriously, \<open>Fn k\<close> lets it run the closure
  it holds, \<open>Incr k\<close> is its \<^verbatim>\<open>++num_free_threads\<close>; the last three are the
  destructor's steps. A step that cannot be taken gives \<open>None\<close>.
\<close>

datatype action =
    Enqueue task | Grow | Lock nat | Wake nat | Fn nat | Incr nat
  | DtorBegin | JoinWorker nat | DtorEnd

fun exec :: "action \<Rightarrow> state \<Rightarrow> state option" where
  "exec (Enqueue t) s =
     (if \<not> naive_engine s \<and> \<not> mutex s \<and> dtor s = NotStarted
      then Some (Push_enqueue t s) else None)"
| "exec Grow s = (if mutex s then Some (Push_grow s) else None)"
| "exec (Lock k) s =
     (if \<not> mutex s \<and> k < length (workers s)
      then (case resume (workers s ! k) of
              None \<Rightarrow> None
            | Some l \<Rightarrow>
                (case ThreadTarget l s of
                   (w, s') \<Rightarrow> Some (s'\<lparr>workers := (workers s')[k := w]\<rparr>)))
      else None)"
| "exec (Wake k) s =
     (if k < length (workers s)
      then (case workers s ! k of
              Waiting \<Rightarrow> Some (s\<lparr>workers := (workers s)[k := Woken]\<rparr>)
            | _ \<Rightarrow> None)
      else None)"
| "exec (Fn k) s =
     (if k < length (workers s)
      then (case workers s ! k of
              Running fn \<Rightarrow>
                (case queued_lambda fn s of
                   Inl e \<Rightarrow> None
                 | Inr s' \<Rightarrow>
                     Some ((emit (FnReturned fn) s')\<lparr>workers := (workers s')[k := Returned]\<rparr>))
            | _ \<Rightarrow> None)
      else None)"
| "exec (Incr k) s =
     (if k < length (workers s)
      then (case workers s ! k of
              Returned \<Rightarrow>
                Some (s\<lparr>num_free_threads := num_free_threads s + 1,
                        workers := (workers s)[k := Relock]\<rparr>)
            | _ \<Rightarrow> None)
      else None)"
| "exec DtorBegin s =
     (if \<not> mutex s \<and> dtor s = NotStarted then Some (dtor_begin s) else None)"
| "exec (JoinWorker k) s =
     (if dtor s = Joining k \<and> k < length (workers s)
      then (case workers s ! k of Exited \<Rightarrow> Some (dtor_join k s) | _ \<Rightarrow> None)
      else None)"
| "exec DtorEnd s =
     (case dtor s of
        Joining k \<Rightarrow> if \<not> k < length (workers s) then Some (s\<lparr>dtor := Finished\<rparr>) else None
      | _ \<Rightarrow> None)"

fun run :: "action list \<Rightarrow> state \<Rightarrow> state option" where
  "run [] s = Some s"
| "run (a # as) s = (case exec a s of None \<Rightarrow> None | Some s' \<Rightarrow> run as s')"

subsection \<open>Sample inputs\<close>

definition env0 :: environ where
  "env0 = \<lparr> MXNET_ENGINE_TYPE = None, MXNET_CUSTOM_OP_NUM_THREADS = None \<rparr>"

definition ambient0 :: ambient where
  "ambient0 = \<lparr> is_recording = False, is_training = True, shandle = (\<lambda>p. p) \<rparr>"

text \<open>
  The call of the spec's example: a dense array with tag 0, a sparse array with tag 1
  which alone is an output, and a callback that gives the sparse array new storage.
\<close>

definition dense_a :: NDArray where
  "dense_a = \<lparr> storage_type = kDefaultStorage, var = 1, ptr = 10 \<rparr>"

definition sparse_b :: NDArray where
  "sparse_b = \<lparr> storage_type = kRowSparseStorage, var = 2, ptr = 20 \<rparr>"

definition out_b :: NDArray where
  "out_b = \<lparr> storage_type = kRowSparseStorage, var = 3, ptr = 30 \<rparr>"

definition sample_task :: task where
  "sample_task =
     \<lparr> func = (\<lambda>a. a\<lparr>shandle := (shandle a)(20 := 99)\<rparr>), ctx = 7,
       recording = True, training = False,
       arrs = [dense_a, sparse_b], tags = [0, 1], output_tags = {1}, outputs = [out_b] \<rparr>"

definition env_naive :: environ where
  "env_naive = \<lparr> MXNET_ENGINE_TYPE = Some ''NaiveEngine'', MXNET_CUSTOM_OP_NUM_THREADS = None \<rparr>"

definition env_one :: environ where
  "env_one = \<lparr> MXNET_ENGINE_TYPE = None, MXNET_CUSTOM_OP_NUM_THREADS = Some 1 \<rparr>"

text \<open>
  Tasks told apart by their context. In \<open>busy_run\<close>, with the default limit of 16
  threads, one task is pushed and its worker has taken it. In \<open>drain_run\<close>, with a limit
  of one thread, three tasks are pushed, the destructor begins while they are all
  still queued (\<open>draining_state\<close>), the one worker takes the first (\<open>draining_next\<close>),
  runs them all and leaves, and the destructor joins it.
\<close>

definition task_no :: "nat \<Rightarrow> task" where
  "task_no c = sample_task\<lparr>ctx := c\<rparr>"

definition busy_run :: "action list" where
  "busy_run = [Enqueue (task_no 1), Grow, Lock 0]"

definition busy_state :: state where
  "busy_state = the (run busy_run (CustomOperator env0 ambient0))"

definition drain_run :: "action list" where
  "drain_run =
     [Enqueue (task_no 1), Grow, Enqueue (task_no 2), Grow, Enqueue (task_no 3), Grow,
      DtorBegin,
      Lock 0, Fn 0, Incr 0, Lock 0, Fn 0, Incr 0, Lock 0, Fn 0, Incr 0, Lock 0,
      JoinWorker 0, DtorEnd]"

definition draining_state :: state where
  "draining_state = the (run (take 7 drain_run) (CustomOperator env_one ambient0))"

definition draining_next :: state where
  "draining_next = the (run (take 8 drain_run) (CustomOperator env_one ambient0))"

definition drained_state :: state where
  "drained_state = the (run drain_run (CustomOperator env_one ambient0))"

text \<open>
  In \<open>stranded_run\<close> the limit is no thread at all: one task is pushed, no worker is
  started for it, and the destructor begins and returns.
\<close>

definition env_none :: environ where
  "env_none = \<lparr> MXNET_ENGINE_TYPE = None, MXNET_CUSTOM_OP_NUM_THREADS = Some 0 \<rparr>"

definition stranded_run :: "action list" where
  "stranded_run = [Enqueue (task_no 1), Grow, DtorBegin, DtorEnd]"

definition stranded_state :: state where
  "stranded_state = the (run stranded_run (CustomOperator env_none ambient0))"

section \<open>Properties\<close>

subsection \<open>What each call changes\<close>

lemma emit_fields [simp]:
  "trace (emit ev s) = trace s @ [ev]"
  "imperative (emit ev s) = imperative s"
  "workers (emit ev s) = workers s"
  "queue (emit ev s) = queue s"
  "num_free_threads (emit ev s) = num_free_threads s"
  "mutex (emit ev s) = mutex s"
  "engine (emit ev s) = engine s"
  "naive_engine (emit ev s) = naive_engine s"
  "destructing (emit ev s) = destructing s"
  "dtor (emit ev s) = dtor s"
  "registry (emit ev s) = registry s"
  "getenv (emit ev s) = getenv s"
  by (simp_all add: emit_def)

lemma notify_all_fields [simp]:
  "trace (notify_all s) = trace s @ [NotifyAll]"
  "workers (notify_all s) = map wake (workers s)"
  "imperative (notify_all s) = imperative s"
  "queue (notify_all s) = queue s"
  "num_free_threads (notify_all s) = num_free_threads s"
  "mutex (notify_all s) = mutex s"
  "engine (notify_all s) = engine s"
  "naive_engine (notify_all s) = naive_engine s"
  "destructing (notify_all s) = destructing s"
  "dtor (notify_all s) = dtor s"
  "registry (notify_all s) = registry s"
  "getenv (notify_all s) = getenv s"
  by (simp_all add: notify_all_def)

lemma SparseUpdateChunk_fields [simp]:
  "trace (SparseUpdateChunk dst src s) = trace s @ [CallSparseUpdateChunk dst src]"
  "shandle (imperative (SparseUpdateChunk dst src s)) =
     (shandle (imperative s))(ptr dst := shandle (imperative s) (ptr src))"
  "is_recording (imperative (SparseUpdateChunk dst src s)) = is_recording (imperative s)"
  "is_training (imperative (SparseUpdateChunk dst src s)) = is_training (imperative s)"
  "workers (SparseUpdateChunk dst src s) = workers s"
  "queue (SparseUpdateChunk dst src s) = queue s"
  "num_free_threads (SparseUpdateChunk dst src s) = num_free_threads s"
  "mutex (SparseUpdateChunk dst src s) = mutex s"
  "engine (SparseUpdateChunk dst src s) = engine s"
  "naive_engine (SparseUpdateChunk dst src s) = naive_engine s"
  "destructing (SparseUpdateChunk dst src s) = destructing s"
  "dtor (SparseUpdateChunk dst src s) = dtor s"
  "registry (SparseUpdateChunk dst src s) = registry s"
  "getenv (SparseUpdateChunk dst src s) = getenv s"
  by (simp_all add: SparseUpdateChunk_def emit_def)

lemma call_func_fields [simp]:
  "trace (call_func f s) =
     trace s @ [CallFunc (is_recording (imperative s)) (is_training (imperative s))]"
  "imperative (call_func f s) = f (imperative s)"
  "workers (call_func f s) = workers s"
  "queue (call_func f s) = queue s"
  "num_free_threads (call_func f s) = num_free_threads s"
  "mutex (call_func f s) = mutex s"
  "engine (call_func f s) = engine s"
  "naive_engine (call_func f s) = naive_engine s"
  "destructing (call_func f s) = destructing s"
  "dtor (call_func f s) = dtor s"
  "registry (call_func f s) = registry s"
  "getenv (call_func f s) = getenv s"
  by (simp_all add: call_func_def)

lemma async_on_complete_fields [simp]:
  "trace (async_on_complete c s) = trace s @ [AsyncOnComplete c]"
  "imperative (async_on_complete c s) = imperative s"
  "workers (async_on_complete c s) = workers s"
  "queue (async_on_complete c s) = queue s"
  "num_free_threads (async_on_complete c s) = num_free_threads s"
  "mutex (async_on_complete c s) = mutex s"
  "engine (async_on_complete c s) = engine s"
  "naive_engine (async_on_complete c s) = naive_engine s"
  "destructing (async_on_complete c s) = destructing s"
  "dtor (async_on_complete c s) = dtor s"
  "registry (async_on_complete c s) = registry s"
  "getenv (async_on_complete c s) = getenv s"
  by (simp_all add: async_on_complete_def)

lemma set_is_recording_eq [simp]:
  "fst (set_is_recording b s) = is_recording (imperative s)"
  "snd (set_is_recording b s) = s\<lparr>imperative := (imperative s)\<lparr>is_recording := b\<rparr>\<rparr>"
  by (simp_all add: set_is_recording_def)

lemma set_is_training_eq [simp]:
  "fst (set_is_training b s) = is_training (imperative s)"
  "snd (set_is_training b s) = s\<lparr>imperative := (imperative s)\<lparr>is_training := b\<rparr>\<rparr>"
  by (simp_all add: set_is_training_def)

lemma Engine_PushSync_fields [simp]:
  "trace (Engine_PushSync t vars vars2 s) = trace s @ [PushSync (ctx t) vars vars2]"
  "imperative (Engine_PushSync t vars vars2 s) = imperative s"
  "workers (Engine_PushSync t vars vars2 s) = workers s"
  "queue (Engine_PushSync t vars vars2 s) = queue s"
  "num_free_threads (Engine_PushSync t vars vars2 s) = num_free_threads s"
  "mutex (Engine_PushSync t vars vars2 s) = mutex s"
  "engine (Engine_PushSync t vars vars2 s) = engine s @ [t]"
  "naive_engine (Engine_PushSync t vars vars2 s) = naive_engine s"
  "destructing (Engine_PushSync t vars vars2 s) = destructing s"
  "dtor (Engine_PushSync t vars vars2 s) = dtor s"
  "registry (Engine_PushSync t vars vars2 s) = registry s"
  "getenv (Engine_PushSync t vars vars2 s) = getenv s"
  by (simp_all add: Engine_PushSync_def)

subsection \<open>Registry\<close>

lemma warnings_append [simp]: "warnings (es @ fs) = warnings es @ warnings fs"
  by (induction es rule: warnings.induct) simp_all

lemma Registers_snoc:
  "Registers (ops @ [(n, c)]) s = Register n c (Registers ops s)"
  by (induction ops s rule: Registers.induct) simp_all

lemma registry_Register:
  "registry (Register op_type creator s) = (registry s)(op_type \<mapsto> creator)"
  by (simp add: Register_def Let_def emit_def)

lemma registry_Registers:
  "registry (Registers ops s) = registry s ++ map_of (rev ops)"
  by (induction ops s rule: Registers.induct)
     (simp_all add: registry_Register fun_eq_iff map_add_def split: option.splits)

lemma dom_registry_Registers:
  "dom (registry (Registers ops (CustomOperator e a))) = fst ` set ops"
  by (simp add: registry_Registers CustomOperator_def dom_map_of_conv_image_fst)

lemma trace_Register:
  "trace (Register n c s) =
     trace s @ (if n \<in> dom (registry s) then [LogWarning (overriding n)] else [])"
  by (auto simp: Register_def Let_def emit_def)

lemma overwrites_snoc:
  "overwrites (ops @ [x]) =
     overwrites ops @ (if fst x \<in> fst ` set ops then [length ops] else [])"
proof -
  have "filter (\<lambda>i. fst ((ops @ [x]) ! i) \<in> fst ` set (take i (ops @ [x]))) [0..<length ops]
      = filter (\<lambda>i. fst (ops ! i) \<in> fst ` set (take i ops)) [0..<length ops]"
    by (rule filter_cong) (auto simp: nth_append)
  then show ?thesis by (simp add: overwrites_def)
qed

lemma set_overwrites: "i \<in> set (overwrites ops) \<Longrightarrow> i < length ops"
  by (simp add: overwrites_def)

text \<open>
  C4. After any sequence of \<^verbatim>\<open>Register\<close> calls on a fresh object, \<^verbatim>\<open>Find\<close> of a
  name returns the creator of the last call that registered this name, and
  \<^verbatim>\<open>nullptr\<close> when no call did; \<^verbatim>\<open>Register\<close> is total, and the warnings logged
  are, in order, one for each call whose name an earlier call had registered.
  \<^verbatim>\<open>Find\<close> reads the registry and changes nothing, so calls of it anywhere in the
  sequence see the calls of \<^verbatim>\<open>Register\<close> made before them in this way.
\<close>

theorem registry_last_writer_wins:
  "Find name (Registers ops (CustomOperator e a)) =
     (case map_of (rev ops) name of Some creator \<Rightarrow> creator | None \<Rightarrow> nullptr)
   \<and> warnings (trace (Registers ops (CustomOperator e a))) =
       map (\<lambda>i. overriding (fst (ops ! i))) (overwrites ops)"
proof
  show "Find name (Registers ops (CustomOperator e a)) =
     (case map_of (rev ops) name of Some creator \<Rightarrow> creator | None \<Rightarrow> nullptr)"
    by (simp add: Find_def registry_Registers CustomOperator_def)
next
  show "warnings (trace (Registers ops (CustomOperator e a))) =
       map (\<lambda>i. overriding (fst (ops ! i))) (overwrites ops)"
  proof (induction ops rule: rev_induct)
    case Nil
    show ?case by (simp add: CustomOperator_def overwrites_def)
  next
    case (snoc x ops)
    obtain n c where x: "x = (n, c)" by (cases x)
    have old: "map (\<lambda>i. overriding (fst ((ops @ [x]) ! i))) (overwrites ops)
        = map (\<lambda>i. overriding (fst (ops ! i))) (overwrites ops)"
      by (rule map_cong) (auto simp: nth_append dest: set_overwrites)
    show ?case
      using snoc.IH old
      by (simp add: x Registers_snoc trace_Register dom_registry_Registers overwrites_snoc)
  qed
qed

text \<open>
  The name \<^verbatim>\<open>A\<close> registered with creator 11, then with creator 22: \<^verbatim>\<open>Find\<close>
  gives 22, one warning is logged, and a name never registered gives \<^verbatim>\<open>nullptr\<close>.
\<close>

theorem registry_last_writer_wins_witness:
  "Find ''A'' (Registers [(''A'', 11), (''A'', 22)] (CustomOperator env0 ambient0)) = 22
   \<and> warnings (trace (Registers [(''A'', 11), (''A'', 22)] (CustomOperator env0 ambient0)))
       = [overriding ''A'']
   \<and> Find ''B'' (Registers [(''A'', 11), (''A'', 22)] (CustomOperator env0 ambient0)) = nullptr"
  using registry_last_writer_wins [of "''A''" "[(''A'', 11), (''A'', 22)]" env0 ambient0]
        registry_last_writer_wins [of "''B''" "[(''A'', 11), (''A'', 22)]" env0 ambient0]
  by (simp add: overwrites_def upt_conv_Cons)

subsection \<open>The sparse update loop\<close>

declare sparse_loop.simps [simp del]

lemma rebind_all_simps [simp]:
  "rebind_all [] s = s"
  "rebind_all ((dst, src) # ps) s = rebind_all ps (SparseUpdateChunk dst src s)"
  by (simp_all add: rebind_all_def)

lemma qualifying_from_step:
  assumes "i < length (arrs t)" "i < length (tags t)"
  shows "qualifying_from t i =
    (if sparse (arrs t ! i) \<and> tags t ! i \<in> output_tags t then [arrs t ! i] else [])
      @ qualifying_from t (Suc i)"
proof -
  have "drop i (zip (arrs t) (tags t)) = (arrs t ! i, tags t ! i) # drop (Suc i) (zip (arrs t) (tags t))"
    using assms by (simp flip: Cons_nth_drop_Suc)
  then show ?thesis by (simp add: qualifying_from_def)
qed

lemma qualifying_from_end:
  "\<not> i < length (arrs t) \<Longrightarrow> qualifying_from t i = []"
  by (simp add: qualifying_from_def)

lemma sparse_loop_eq:
  "length (tags t) = length (arrs t) \<Longrightarrow>
   out_idx + length (qualifying_from t i) \<le> length (outputs t) \<Longrightarrow>
   sparse_loop t i out_idx s =
     Inr (rebind_all (zip (drop out_idx (outputs t)) (qualifying_from t i)) s)"
proof (induction t i out_idx s rule: sparse_loop.induct)
  case (1 t i out_idx s)
  show ?case
  proof (cases "i < length (arrs t)")
    case False
    then show ?thesis by (simp add: sparse_loop.simps [of t i] qualifying_from_end)
  next
    case True
    then have tg: "i < length (tags t)" using "1.prems" by simp
    note q = qualifying_from_step [OF True tg]
    show ?thesis
    proof (cases "sparse (arrs t ! i)")
      case False
      then have d: "storage_type (arrs t ! i) = kDefaultStorage \<or>
                    storage_type (arrs t ! i) = kUndefinedStorage"
        by (simp add: sparse_def)
      have "sparse_loop t i out_idx s = sparse_loop t (i + 1) out_idx s"
        using True d by (subst sparse_loop.simps) simp
      also have "\<dots> = Inr (rebind_all (zip (drop out_idx (outputs t)) (qualifying_from t (Suc i))) s)"
        using "1.IH"(1) [OF True d] "1.prems" q False by simp
      finally show ?thesis using q False by simp
    next
      case sp: True
      then have d: "\<not> (storage_type (arrs t ! i) = kDefaultStorage \<or>
                    storage_type (arrs t ! i) = kUndefinedStorage)"
        by (simp add: sparse_def)
      show ?thesis
      proof (cases "tags t ! i \<in> output_tags t")
        case False
        have "sparse_loop t i out_idx s = sparse_loop t (i + 1) out_idx s"
          using True d tg False by (subst sparse_loop.simps) simp
        also have "\<dots> = Inr (rebind_all (zip (drop out_idx (outputs t)) (qualifying_from t (Suc i))) s)"
          using "1.IH"(3) True d tg False "1.prems" q by simp
        finally show ?thesis using q False by simp
      next
        case mem: True
        have len: "Suc out_idx + length (qualifying_from t (Suc i)) \<le> length (outputs t)"
          using "1.prems"(2) q sp mem by simp
        then have k: "out_idx < length (outputs t)" by simp
        have "sparse_loop t i out_idx s =
              sparse_loop t (i + 1) (out_idx + 1) (SparseUpdateChunk (outputs t ! out_idx) (arrs t ! i) s)"
          using True d tg mem k by (subst sparse_loop.simps) simp
        also have "\<dots> = Inr (rebind_all (zip (drop (Suc out_idx) (outputs t)) (qualifying_from t (Suc i)))
                       (SparseUpdateChunk (outputs t ! out_idx) (arrs t ! i) s))"
          using "1.IH"(2) True d tg mem k "1.prems"(1) len by simp
        finally show ?thesis
          using q sp mem k by (simp flip: Cons_nth_drop_Suc)
      qed
    qed
  qed
qed

lemma qualifying_from_dense:
  assumes "i < length (arrs t)" "\<not> sparse (arrs t ! i)"
  shows "qualifying_from t i = qualifying_from t (Suc i)"
proof (cases "i < length (tags t)")
  case True
  then show ?thesis using qualifying_from_step [OF assms(1) True] assms(2) by simp
next
  case False
  then show ?thesis by (simp add: qualifying_from_def)
qed

text \<open>Whenever the loop comes to its end, it has done what \<open>reconciliation\<close> says.\<close>

lemma sparse_loop_Inr:
  "sparse_loop t i out_idx s = Inr s' \<Longrightarrow> out_idx \<le> length (outputs t) \<Longrightarrow>
   out_idx + length (qualifying_from t i) \<le> length (outputs t) \<and>
   s' = rebind_all (zip (drop out_idx (outputs t)) (qualifying_from t i)) s"
proof (induction t i out_idx s rule: sparse_loop.induct)
  case (1 t i out_idx s)
  show ?case
  proof (cases "i < length (arrs t)")
    case False
    then show ?thesis using "1.prems" by (simp add: sparse_loop.simps [of t i] qualifying_from_end)
  next
    case True
    show ?thesis
    proof (cases "sparse (arrs t ! i)")
      case False
      then have d: "storage_type (arrs t ! i) = kDefaultStorage \<or>
                    storage_type (arrs t ! i) = kUndefinedStorage"
        by (simp add: sparse_def)
      have "sparse_loop t i out_idx s = sparse_loop t (i + 1) out_idx s"
        using True d by (subst sparse_loop.simps) simp
      then have "sparse_loop t (i + 1) out_idx s = Inr s'" using "1.prems" by simp
      from "1.IH"(1) [OF True d this "1.prems"(2)] show ?thesis
        using qualifying_from_dense [OF True False] by simp
    next
      case sp: True
      then have d: "\<not> (storage_type (arrs t ! i) = kDefaultStorage \<or>
                    storage_type (arrs t ! i) = kUndefinedStorage)"
        by (simp add: sparse_def)
      have tg: "i < length (tags t)"
      proof (rule ccontr)
        assume "\<not> i < length (tags t)"
        then have "sparse_loop t i out_idx s = Inl OutOfRange"
          using True d by (subst sparse_loop.simps) simp
        then show False using "1.prems" by simp
      qed
      note q = qualifying_from_step [OF True tg]
      show ?thesis
      proof (cases "tags t ! i \<in> output_tags t")
        case False
        have "sparse_loop t i out_idx s = sparse_loop t (i + 1) out_idx s"
          using True d tg False by (subst sparse_loop.simps) simp
        then have "sparse_loop t (i + 1) out_idx s = Inr s'" using "1.prems" by simp
        from "1.IH"(3) [OF True d _ False this "1.prems"(2)] tg show ?thesis
          using q False by simp
      next
        case mem: True
        have k: "out_idx < length (outputs t)"
        proof (rule ccontr)
          assume "\<not> out_idx < length (outputs t)"
          then have "sparse_loop t i out_idx s = Inl OutOfRange"
            using True d tg mem by (subst sparse_loop.simps) simp
          then show False using "1.prems" by simp
        qed
        have "sparse_loop t i out_idx s =
              sparse_loop t (i + 1) (out_idx + 1) (SparseUpdateChunk (outputs t ! out_idx) (arrs t ! i) s)"
          using True d tg mem k by (subst sparse_loop.simps) simp
        then have "sparse_loop t (i + 1) (out_idx + 1)
            (SparseUpdateChunk (outputs t ! out_idx) (arrs t ! i) s) = Inr s'"
          using "1.prems" by simp
        from "1.IH"(2) [OF True d _ mem _ this] tg k show ?thesis
          using q sp mem by (simp flip: Cons_nth_drop_Suc)
      qed
    qed
  qed
qed

lemma qualifying_from_0: "qualifying_from t 0 = qualifying t"
  by (simp add: qualifying_from_def qualifying_def)

lemma reconciliation_rebind_all:
  "reconciliation t s = rebind_all (zip (outputs t) (qualifying t)) s"
  by (simp add: reconciliation_def rebind_all_def)

lemma sparse_loop_reconciliation:
  "length (tags t) = length (arrs t) \<Longrightarrow> length (outputs t) = length (qualifying t) \<Longrightarrow>
   sparse_loop t 0 0 s = Inr (reconciliation t s)"
  using sparse_loop_eq [of t 0 0 s]
  by (simp add: qualifying_from_0 reconciliation_rebind_all)

lemma sparse_loop_returns:
  "sparse_loop t 0 0 s = Inr s' \<Longrightarrow>
   length (qualifying t) \<le> length (outputs t) \<and> s' = reconciliation t s"
  using sparse_loop_Inr [of t 0 0 s s']
  by (simp add: qualifying_from_0 reconciliation_rebind_all)

lemma rebound_simps [simp]:
  "rebound [] a = a"
  "rebound ((dst, src) # ps) a =
     rebound ps (a\<lparr>shandle := (shandle a)(ptr dst := shandle a (ptr src))\<rparr>)"
  by (simp_all add: rebound_def)

lemma SparseUpdateChunk_imperative:
  "imperative (SparseUpdateChunk dst src s) =
     (imperative s)\<lparr>shandle := (shandle (imperative s))(ptr dst := shandle (imperative s) (ptr src))\<rparr>"
  by (simp add: SparseUpdateChunk_def emit_def)

lemma rebind_all_imperative:
  "imperative (rebind_all ps s) = rebound ps (imperative s)"
proof (induction ps arbitrary: s)
  case Nil
  show ?case by simp
next
  case (Cons x ps)
  obtain dst src where x: "x = (dst, src)" by (cases x)
  show ?case by (simp add: x Cons.IH SparseUpdateChunk_imperative)
qed

lemma rebind_all_trace:
  "trace (rebind_all ps s) = trace s @ map (\<lambda>(dst, src). CallSparseUpdateChunk dst src) ps"
proof (induction ps arbitrary: s)
  case Nil
  show ?case by simp
next
  case (Cons x ps)
  obtain dst src where x: "x = (dst, src)" by (cases x)
  show ?case by (simp add: x Cons.IH)
qed

lemma rebind_all_frame:
  "p \<notin> ptr ` fst ` set ps \<Longrightarrow>
   shandle (imperative (rebind_all ps s)) p = shandle (imperative s) p"
proof (induction ps arbitrary: s)
  case Nil
  show ?case by simp
next
  case (Cons x ps)
  obtain dst src where x: "x = (dst, src)" by (cases x)
  have "p \<notin> ptr ` fst ` set ps" "p \<noteq> ptr dst" using Cons.prems x by auto
  then show ?case by (simp add: x Cons.IH)
qed

lemma rebind_all_noalias:
  "distinct (map ptr (map fst ps)) \<Longrightarrow>
   set (map ptr (map fst ps)) \<inter> set (map ptr (map snd ps)) = {} \<Longrightarrow>
   k < length ps \<Longrightarrow>
   shandle (imperative (rebind_all ps s)) (ptr (fst (ps ! k))) =
   shandle (imperative s) (ptr (snd (ps ! k)))"
proof (induction ps arbitrary: s k)
  case Nil
  then show ?case by simp
next
  case (Cons x ps)
  obtain dst src where x: "x = (dst, src)" by (cases x)
  have d: "distinct (map ptr (map fst ps))" using Cons.prems(1) by simp
  have i: "set (map ptr (map fst ps)) \<inter> set (map ptr (map snd ps)) = {}"
    using Cons.prems(2) by auto
  show ?case
  proof (cases k)
    case 0
    have "ptr dst \<notin> set (map ptr (map fst ps))" using Cons.prems(1) x by simp
    then have "ptr dst \<notin> ptr ` fst ` set ps" by (simp add: image_image)
    then have "shandle (imperative (rebind_all ps (SparseUpdateChunk dst src s))) (ptr dst) =
          shandle (imperative (SparseUpdateChunk dst src s)) (ptr dst)"
      by (rule rebind_all_frame)
    also have "\<dots> = shandle (imperative s) (ptr src)"
      by simp
    finally show ?thesis using 0 x by simp
  next
    case (Suc j)
    have j: "j < length ps" using Cons.prems(3) Suc by simp
    then have "ptr (snd (ps ! j)) \<in> set (map ptr (map snd ps))" by simp
    moreover have "ptr dst \<notin> set (map ptr (map snd ps))"
      using Cons.prems(2) x by simp
    ultimately have ne: "ptr (snd (ps ! j)) \<noteq> ptr dst" by metis
    have "shandle (imperative (rebind_all ps (SparseUpdateChunk dst src s))) (ptr (fst (ps ! j))) =
          shandle (imperative (SparseUpdateChunk dst src s)) (ptr (snd (ps ! j)))"
      by (rule Cons.IH [OF d i j])
    also have "\<dots> = shandle (imperative s) (ptr (snd (ps ! j)))"
      using ne by simp
    finally show ?thesis using Suc x by simp
  qed
qed

lemma rebind_all_pool [simp]:
  "workers (rebind_all ps s) = workers s"
  "queue (rebind_all ps s) = queue s"
  "num_free_threads (rebind_all ps s) = num_free_threads s"
  "mutex (rebind_all ps s) = mutex s"
  "engine (rebind_all ps s) = engine s"
  "naive_engine (rebind_all ps s) = naive_engine s"
  "destructing (rebind_all ps s) = destructing s"
  "dtor (rebind_all ps s) = dtor s"
  "registry (rebind_all ps s) = registry s"
  "getenv (rebind_all ps s) = getenv s"
  "is_recording (imperative (rebind_all ps s)) = is_recording (imperative s)"
  "is_training (imperative (rebind_all ps s)) = is_training (imperative s)"
  by (induction ps arbitrary: s; simp add: split_paired_all)+

lemma reconciliation_pool [simp]:
  "workers (reconciliation t s) = workers s"
  "queue (reconciliation t s) = queue s"
  "num_free_threads (reconciliation t s) = num_free_threads s"
  "mutex (reconciliation t s) = mutex s"
  "engine (reconciliation t s) = engine s"
  "naive_engine (reconciliation t s) = naive_engine s"
  "destructing (reconciliation t s) = destructing s"
  "dtor (reconciliation t s) = dtor s"
  "registry (reconciliation t s) = registry s"
  "getenv (reconciliation t s) = getenv s"
  "is_recording (imperative (reconciliation t s)) = is_recording (imperative s)"
  "is_training (imperative (reconciliation t s)) = is_training (imperative s)"
  by (simp_all add: reconciliation_rebind_all)

lemma reconciliation_trace:
  "length (outputs t) = length (qualifying t) \<Longrightarrow>
   trace (reconciliation t s) =
     trace s @ map (\<lambda>k. CallSparseUpdateChunk (outputs t ! k) (qualifying t ! k))
                 [0..<length (qualifying t)]"
proof -
  assume l: "length (outputs t) = length (qualifying t)"
  have "map (\<lambda>(dst, src). CallSparseUpdateChunk dst src) (zip (outputs t) (qualifying t)) =
        map (\<lambda>k. CallSparseUpdateChunk (outputs t ! k) (qualifying t ! k)) [0..<length (qualifying t)]"
    using l by (intro nth_equalityI) simp_all
  then show ?thesis by (simp add: reconciliation_rebind_all rebind_all_trace)
qed

lemma reconciliation_trace_le:
  assumes "length (qualifying t) \<le> length (outputs t)"
  shows "trace (reconciliation t s) =
     trace s @ map (\<lambda>k. CallSparseUpdateChunk (outputs t ! k) (qualifying t ! k))
                 [0..<length (qualifying t)]"
proof -
  have "map (\<lambda>(dst, src). CallSparseUpdateChunk dst src) (zip (outputs t) (qualifying t)) =
        map (\<lambda>k. CallSparseUpdateChunk (outputs t ! k) (qualifying t ! k)) [0..<length (qualifying t)]"
    using assms by (intro nth_equalityI) simp_all
  then show ?thesis by (simp add: reconciliation_rebind_all rebind_all_trace)
qed

lemma sample_lengths:
  "length (tags sample_task) = length (arrs sample_task)"
  "length (outputs sample_task) = length (qualifying sample_task)"
  by (simp_all add: sample_task_def qualifying_def sparse_def dense_a_def sparse_b_def)

lemma sample_qualifying: "qualifying sample_task = [sparse_b]"
  by (simp add: sample_task_def qualifying_def sparse_def dense_a_def sparse_b_def)

text \<open>
  C1. For a call with as many tags as arrays and as many outputs as qualifying entries,
  the loop at lines 82 to 90 (after the callback, under the naive engine) and the same
  loop at lines 119 to 127 (in the closure given to the engine) never read past the end
  of a vector and do what \<open>reconciliation\<close> says: they go through \<open>arrs\<close> in order, pass
  over the entries that are dense or undefined, and for the \<open>k\<close>-th entry that is sparse
  and has an output tag call \<^verbatim>\<open>outputs[k].SparseUpdateChunk\<close> with it, \<open>k\<close> counting
  the qualifying entries and not the position. The calls appear in the trace in that
  order; a chunk that no output points to keeps its storage; and when the outputs point
  to chunks distinct from each other and from those of the qualifying entries, the
  chunk of the \<open>k\<close>-th output ends with the storage of the \<open>k\<close>-th qualifying entry.
\<close>

theorem sparse_reconciliation:
  assumes "length (tags t) = length (arrs t)"
    and "length (outputs t) = length (qualifying t)"
  shows "Push_naive t s = Inr (async_on_complete (ctx t) (reconciliation t (call_func (func t) s)))
    \<and> patch_closure t s = Inr (async_on_complete (ctx t) (reconciliation t s))
    \<and> trace (reconciliation t s) =
        trace s @ map (\<lambda>k. CallSparseUpdateChunk (outputs t ! k) (qualifying t ! k))
                    [0..<length (qualifying t)]
    \<and> (\<forall>p. p \<notin> ptr ` set (outputs t) \<longrightarrow>
          shandle (imperative (reconciliation t s)) p = shandle (imperative s) p)
    \<and> (distinct (map ptr (outputs t)) \<and> ptr ` set (outputs t) \<inter> ptr ` set (qualifying t) = {} \<longrightarrow>
        (\<forall>k < length (outputs t).
           shandle (imperative (reconciliation t s)) (ptr (outputs t ! k)) =
           shandle (imperative s) (ptr (qualifying t ! k))))"
proof (intro conjI allI impI)
  show "Push_naive t s = Inr (async_on_complete (ctx t) (reconciliation t (call_func (func t) s)))"
    using assms by (simp add: Push_naive_def sparse_loop_reconciliation)
  show "patch_closure t s = Inr (async_on_complete (ctx t) (reconciliation t s))"
    using assms by (simp add: patch_closure_def sparse_loop_reconciliation)
  have "map (\<lambda>(dst, src). CallSparseUpdateChunk dst src) (zip (outputs t) (qualifying t)) =
        map (\<lambda>k. CallSparseUpdateChunk (outputs t ! k) (qualifying t ! k)) [0..<length (qualifying t)]"
    using assms(2) by (intro nth_equalityI) simp_all
  then show "trace (reconciliation t s) =
        trace s @ map (\<lambda>k. CallSparseUpdateChunk (outputs t ! k) (qualifying t ! k))
                    [0..<length (qualifying t)]"
    by (simp add: reconciliation_rebind_all rebind_all_trace)
next
  fix p assume "p \<notin> ptr ` set (outputs t)"
  then have "p \<notin> ptr ` fst ` set (zip (outputs t) (qualifying t))"
    by (auto dest: set_zip_leftD)
  then show "shandle (imperative (reconciliation t s)) p = shandle (imperative s) p"
    by (simp add: reconciliation_rebind_all rebind_all_frame)
next
  fix k
  assume a: "distinct (map ptr (outputs t)) \<and> ptr ` set (outputs t) \<inter> ptr ` set (qualifying t) = {}"
    and k: "k < length (outputs t)"
  let ?ps = "zip (outputs t) (qualifying t)"
  have m: "map fst ?ps = outputs t" "map snd ?ps = qualifying t"
    using assms(2) by simp_all
  have d: "distinct (map ptr (map fst ?ps))"
    using a m(1) by simp
  have i: "set (map ptr (map fst ?ps)) \<inter> set (map ptr (map snd ?ps)) = {}"
    using a m by simp
  have "k < length ?ps" using k assms(2) by simp
  from rebind_all_noalias [OF d i this, of s] show
    "shandle (imperative (reconciliation t s)) (ptr (outputs t ! k)) =
           shandle (imperative s) (ptr (qualifying t ! k))"
    using k assms(2) by (simp add: reconciliation_rebind_all)
qed

text \<open>
  The example of the spec: the callback replaces the storage of the sparse array, the
  output then holds the new storage and the chunk of the dense array is as before.
\<close>

theorem sparse_reconciliation_witness:
  "length (tags sample_task) = length (arrs sample_task)
   \<and> length (outputs sample_task) = length (qualifying sample_task)
   \<and> Push_naive sample_task (CustomOperator env_naive ambient0) =
       Inr (async_on_complete 7 (reconciliation sample_task
             (call_func (func sample_task) (CustomOperator env_naive ambient0))))
   \<and> trace (reconciliation sample_task (call_func (func sample_task) (CustomOperator env_naive ambient0)))
       = [CallFunc False True, CallSparseUpdateChunk out_b sparse_b]
   \<and> shandle (imperative (reconciliation sample_task
         (call_func (func sample_task) (CustomOperator env_naive ambient0)))) (ptr out_b) = 99
   \<and> shandle (imperative (reconciliation sample_task
         (call_func (func sample_task) (CustomOperator env_naive ambient0)))) (ptr dense_a) = 10"
proof -
  let ?s0 = "CustomOperator env_naive ambient0"
  let ?s1 = "call_func (func sample_task) ?s0"
  note a = sparse_reconciliation [OF sample_lengths, of ?s0]
  note b = sparse_reconciliation [OF sample_lengths, of ?s1]
  have push: "Push_naive sample_task ?s0 =
       Inr (async_on_complete 7 (reconciliation sample_task ?s1))"
    using a by (simp add: sample_task_def)
  have tr: "trace (reconciliation sample_task ?s1) = [CallFunc False True, CallSparseUpdateChunk out_b sparse_b]"
    using b by (simp add: sample_qualifying) (simp add: sample_task_def CustomOperator_def ambient0_def)
  have fr: "\<forall>p. p \<notin> ptr ` set (outputs sample_task) \<longrightarrow>
          shandle (imperative (reconciliation sample_task ?s1)) p = shandle (imperative ?s1) p"
    using b by blast
  have "shandle (imperative (reconciliation sample_task ?s1)) (ptr dense_a) = shandle (imperative ?s1) (ptr dense_a)"
    using fr [THEN spec, of "ptr dense_a"] by (simp add: sample_task_def dense_a_def out_b_def)
  then have dense: "shandle (imperative (reconciliation sample_task ?s1)) (ptr dense_a) = 10"
    by (simp add: sample_task_def dense_a_def CustomOperator_def ambient0_def)
  have na: "distinct (map ptr (outputs sample_task)) \<and>
        ptr ` set (outputs sample_task) \<inter> ptr ` set (qualifying sample_task) = {}"
    by (simp add: sample_qualifying) (simp add: sample_task_def out_b_def sparse_b_def)
  have "\<forall>k < length (outputs sample_task).
           shandle (imperative (reconciliation sample_task ?s1)) (ptr (outputs sample_task ! k)) =
           shandle (imperative ?s1) (ptr (qualifying sample_task ! k))"
    using b na by blast
  from this [THEN spec, of 0]
  have "shandle (imperative (reconciliation sample_task ?s1)) (ptr (outputs sample_task ! 0)) =
           shandle (imperative ?s1) (ptr (qualifying sample_task ! 0))"
    by (simp add: sample_task_def)
  then have out: "shandle (imperative (reconciliation sample_task ?s1)) (ptr out_b) = 99"
    by (simp add: sample_qualifying) (simp add: sample_task_def sparse_b_def)
  show ?thesis
    using sample_lengths push tr out dense by simp
qed

subsection \<open>Push under the naive engine\<close>

lemma completions_append [simp]: "completions (es @ fs) = completions es @ completions fs"
  by (induction es rule: completions.induct) simp_all

lemma completions_updates [simp]:
  "completions (map (\<lambda>k. CallSparseUpdateChunk (f k) (g k)) ks) = []"
  by (induction ks) simp_all

lemma naive_sample: "naive_engine (CustomOperator env_naive ambient0)"
  by (simp add: CustomOperator_def env_naive_def GetEnv_def)

text \<open>What the naive branch has done whenever it comes to its \<^verbatim>\<open>return\<close>.\<close>

lemma Push_naive_returns:
  assumes "Push_naive t s = Inr s'"
  shows "length (qualifying t) \<le> length (outputs t)"
    and "s' = async_on_complete (ctx t) (reconciliation t (call_func (func t) s))"
proof -
  obtain s1 where s1: "sparse_loop t 0 0 (call_func (func t) s) = Inr s1"
    using assms by (cases "sparse_loop t 0 0 (call_func (func t) s)") (simp_all add: Push_naive_def)
  from sparse_loop_returns [OF s1] show "length (qualifying t) \<le> length (outputs t)" by simp
  from sparse_loop_returns [OF s1] assms s1
  show "s' = async_on_complete (ctx t) (reconciliation t (call_func (func t) s))"
    by (simp add: Push_naive_def)
qed

lemma Push_naive_state:
  assumes "length (qualifying t) \<le> length (outputs t)"
    and "s' = async_on_complete (ctx t) (reconciliation t (call_func (func t) s))"
  shows "imperative s' = rebound (zip (outputs t) (qualifying t)) (func t (imperative s))"
    and "is_recording (imperative s') = is_recording (func t (imperative s))"
    and "is_training (imperative s') = is_training (func t (imperative s))"
    and "\<forall>p. p \<notin> ptr ` set (outputs t) \<longrightarrow>
          shandle (imperative s') p = shandle (func t (imperative s)) p"
    and "trace s' = trace s
         @ CallFunc (is_recording (imperative s)) (is_training (imperative s))
         # map (\<lambda>k. CallSparseUpdateChunk (outputs t ! k) (qualifying t ! k))
             [0..<length (qualifying t)]
         @ [AsyncOnComplete (ctx t)]"
    and "completions (trace s') = completions (trace s) @ [ctx t]"
    and "queue s' = queue s \<and> workers s' = workers s
         \<and> num_free_threads s' = num_free_threads s \<and> mutex s' = mutex s
         \<and> engine s' = engine s \<and> destructing s' = destructing s \<and> dtor s' = dtor s"
proof -
  show "imperative s' = rebound (zip (outputs t) (qualifying t)) (func t (imperative s))"
    using assms(2) by (simp add: reconciliation_rebind_all rebind_all_imperative)
  show "is_recording (imperative s') = is_recording (func t (imperative s))"
    using assms(2) by simp
  show "is_training (imperative s') = is_training (func t (imperative s))"
    using assms(2) by simp
  show "\<forall>p. p \<notin> ptr ` set (outputs t) \<longrightarrow>
          shandle (imperative s') p = shandle (func t (imperative s)) p"
  proof (intro allI impI)
    fix p assume "p \<notin> ptr ` set (outputs t)"
    then have "p \<notin> ptr ` fst ` set (zip (outputs t) (qualifying t))"
      by (auto dest: set_zip_leftD)
    then show "shandle (imperative s') p = shandle (func t (imperative s)) p"
      using assms(2) by (simp add: reconciliation_rebind_all rebind_all_frame)
  qed
  show tr: "trace s' = trace s
         @ CallFunc (is_recording (imperative s)) (is_training (imperative s))
         # map (\<lambda>k. CallSparseUpdateChunk (outputs t ! k) (qualifying t ! k))
             [0..<length (qualifying t)]
         @ [AsyncOnComplete (ctx t)]"
    using assms(2) by (simp add: reconciliation_trace_le [OF assms(1)])
  show "completions (trace s') = completions (trace s) @ [ctx t]"
    by (simp add: tr)
  show "queue s' = queue s \<and> workers s' = workers s
         \<and> num_free_threads s' = num_free_threads s \<and> mutex s' = mutex s
         \<and> engine s' = engine s \<and> destructing s' = destructing s \<and> dtor s' = dtor s"
    using assms(2) by simp
qed

text \<open>
  C2. Under the naive engine \<^verbatim>\<open>Push\<close> returns for every call with as many tags as
  arrays and as many outputs as qualifying entries (a call that does not return has
  read a vector past its end). Whenever it returns, the state it returns is the one
  reached by the callback, then the reconciliation pass, then \<^verbatim>\<open>async_on_complete\<close>.
  The callback has run by then, once and on the state that \<^verbatim>\<open>Push\<close> was called in:
  what it can see is what the callback made of it, with the storage of the outputs
  rebound after that, so the two flags are those the callback left and every chunk that
  no output points to holds what the callback put there. The trace grows by the call of
  the callback, the calls of \<^verbatim>\<open>SparseUpdateChunk\<close> and last one completion, and by
  nothing else; the queue, the workers, the count of free threads, the mutex, the
  engine's pending closures and the destructor's flag are as before.
\<close>

theorem naive_push_synchronous:
  assumes "naive_engine s"
  shows "(length (tags t) = length (arrs t) \<and> length (outputs t) = length (qualifying t) \<longrightarrow>
      (\<exists>s'. Push t s = Inr s'))
    \<and> (\<forall>s'. Push t s = Inr s' \<longrightarrow>
      s' = async_on_complete (ctx t) (reconciliation t (call_func (func t) s))
      \<and> imperative (call_func (func t) s) = func t (imperative s)
      \<and> imperative s' = rebound (zip (outputs t) (qualifying t)) (func t (imperative s))
      \<and> is_recording (imperative s') = is_recording (func t (imperative s))
      \<and> is_training (imperative s') = is_training (func t (imperative s))
      \<and> (\<forall>p. p \<notin> ptr ` set (outputs t) \<longrightarrow>
            shandle (imperative s') p = shandle (func t (imperative s)) p)
      \<and> trace s' = trace s
           @ CallFunc (is_recording (imperative s)) (is_training (imperative s))
           # map (\<lambda>k. CallSparseUpdateChunk (outputs t ! k) (qualifying t ! k))
               [0..<length (qualifying t)]
           @ [AsyncOnComplete (ctx t)]
      \<and> completions (trace s') = completions (trace s) @ [ctx t]
      \<and> queue s' = queue s \<and> workers s' = workers s
      \<and> num_free_threads s' = num_free_threads s \<and> mutex s' = mutex s
      \<and> engine s' = engine s \<and> destructing s' = destructing s \<and> dtor s' = dtor s)"
proof (intro conjI allI impI)
  assume "length (tags t) = length (arrs t) \<and> length (outputs t) = length (qualifying t)"
  then have "Push t s = Inr (async_on_complete (ctx t) (reconciliation t (call_func (func t) s)))"
    using assms by (simp add: Push_def Push_naive_def sparse_loop_reconciliation)
  then show "\<exists>s'. Push t s = Inr s'" by blast
next
  fix s' assume "Push t s = Inr s'"
  then have n: "Push_naive t s = Inr s'" using assms by (simp add: Push_def)
  note r = Push_naive_returns [OF n]
  note e = Push_naive_state [OF r]
  show "s' = async_on_complete (ctx t) (reconciliation t (call_func (func t) s))" by (rule r(2))
  show "imperative (call_func (func t) s) = func t (imperative s)" by simp
  show "imperative s' = rebound (zip (outputs t) (qualifying t)) (func t (imperative s))"
    by (rule e(1))
  show "is_recording (imperative s') = is_recording (func t (imperative s))" by (rule e(2))
  show "is_training (imperative s') = is_training (func t (imperative s))" by (rule e(3))
  show "trace s' = trace s
           @ CallFunc (is_recording (imperative s)) (is_training (imperative s))
           # map (\<lambda>k. CallSparseUpdateChunk (outputs t ! k) (qualifying t ! k))
               [0..<length (qualifying t)]
           @ [AsyncOnComplete (ctx t)]" by (rule e(5))
  show "completions (trace s') = completions (trace s) @ [ctx t]" by (rule e(6))
  show "queue s' = queue s" "workers s' = workers s"
    "num_free_threads s' = num_free_threads s" "mutex s' = mutex s"
    "engine s' = engine s" "destructing s' = destructing s" "dtor s' = dtor s"
    using e(7) by simp_all
next
  fix s' p assume "Push t s = Inr s'" and p: "p \<notin> ptr ` set (outputs t)"
  then have n: "Push_naive t s = Inr s'" using assms by (simp add: Push_def)
  note r = Push_naive_returns [OF n]
  from Push_naive_state(4) [OF r] p
  show "shandle (imperative s') p = shandle (func t (imperative s)) p" by blast
qed

text \<open>
  The call of the spec's example, under the naive engine. The callback puts 99 into
  the chunk of the sparse array, which held 20: when \<^verbatim>\<open>Push\<close> has returned the chunk
  holds 99, and so does the chunk of the output.
\<close>

theorem naive_push_synchronous_witness:
  "naive_engine (CustomOperator env_naive ambient0)
   \<and> length (tags sample_task) = length (arrs sample_task)
   \<and> length (outputs sample_task) = length (qualifying sample_task)
   \<and> shandle (imperative (CustomOperator env_naive ambient0)) 20 = 20
   \<and> (\<exists>s'. Push sample_task (CustomOperator env_naive ambient0) = Inr s'
        \<and> trace s' = [CallFunc False True, CallSparseUpdateChunk out_b sparse_b, AsyncOnComplete 7]
        \<and> completions (trace s') = [7]
        \<and> shandle (imperative s') 20 = 99 \<and> shandle (imperative s') 30 = 99
        \<and> shandle (imperative s') 10 = 10
        \<and> queue s' = [] \<and> workers s' = [] \<and> num_free_threads s' = 0 \<and> \<not> mutex s')"
proof -
  let ?s = "CustomOperator env_naive ambient0"
  note c = naive_push_synchronous [OF naive_sample, of sample_task]
  from c sample_lengths obtain s' where p: "Push sample_task ?s = Inr s'" by blast
  from c p have s': "imperative s' =
      rebound (zip (outputs sample_task) (qualifying sample_task))
        (func sample_task (imperative ?s))"
    "trace s' = trace ?s
         @ CallFunc (is_recording (imperative ?s)) (is_training (imperative ?s))
         # map (\<lambda>k. CallSparseUpdateChunk (outputs sample_task ! k) (qualifying sample_task ! k))
             [0..<length (qualifying sample_task)]
         @ [AsyncOnComplete (ctx sample_task)]"
    "completions (trace s') = completions (trace ?s) @ [ctx sample_task]"
    "queue s' = queue ?s" "workers s' = workers ?s"
    "num_free_threads s' = num_free_threads ?s" "mutex s' = mutex ?s"
    by blast+
  have "trace s' = [CallFunc False True, CallSparseUpdateChunk out_b sparse_b, AsyncOnComplete 7]"
    using s'(2) by (simp add: sample_qualifying) (simp add: sample_task_def CustomOperator_def ambient0_def)
  moreover have "completions (trace s') = [7]"
    using s'(3) by (simp add: sample_task_def CustomOperator_def)
  moreover have "queue s' = [] \<and> workers s' = [] \<and> num_free_threads s' = 0 \<and> \<not> mutex s'"
    using s'(4-7) by (simp add: CustomOperator_def)
  moreover have "imperative s' =
      rebound [(out_b, sparse_b)] (ambient0\<lparr>shandle := (shandle ambient0)(20 := 99)\<rparr>)"
    using s'(1) by (simp add: sample_qualifying) (simp add: sample_task_def CustomOperator_def)
  then have "shandle (imperative s') 20 = 99 \<and> shandle (imperative s') 30 = 99
        \<and> shandle (imperative s') 10 = 10"
    by (simp add: out_b_def sparse_b_def ambient0_def)
  moreover have "shandle (imperative ?s) 20 = 20"
    by (simp add: CustomOperator_def ambient0_def)
  ultimately show ?thesis
    using naive_sample sample_lengths p by blast
qed
subsection \<open>The queued closure\<close>

lemma vars_loop_append:
  "vars_loop (as @ bs) tgs otags idx vars vars2 =
     (case vars_loop as tgs otags idx vars vars2 of
        Inl e \<Rightarrow> Inl e
      | Inr (idx', vars', vars2') \<Rightarrow> vars_loop bs tgs otags idx' vars' vars2')"
  by (induction as arbitrary: idx vars vars2) simp_all

lemma vars_loop_Cons:
  "vars_loop (a # as) tgs otags idx vars vars2 =
     (if \<not> idx < length tgs then Inl OutOfRange
      else if tgs ! idx \<in> otags \<and> sparse a
      then vars_loop as tgs otags (idx + 1) (vars @ [var a]) (vars2 @ [var a])
      else vars_loop as tgs otags idx (vars @ [var a]) vars2)"
  by (simp add: sparse_def)

lemma vars_loop_closed:
  "idx + length as \<le> length tgs \<Longrightarrow>
   vars_loop as tgs otags idx vars vars2 =
     Inr (idx + min (length (filter sparse as))
                    (length (takeWhile (\<lambda>tg. tg \<in> otags) (drop idx tgs))),
          vars @ map var as,
          vars2 @ map var (take (min (length (filter sparse as))
                    (length (takeWhile (\<lambda>tg. tg \<in> otags) (drop idx tgs))))
                  (filter sparse as)))"
proof (induction as arbitrary: idx vars vars2)
  case Nil
  show ?case by simp
next
  case (Cons a as)
  have i: "idx < length tgs" using Cons.prems by simp
  then have d: "drop idx tgs = tgs ! idx # drop (Suc idx) tgs"
    by (simp add: Cons_nth_drop_Suc)
  show ?case
  proof (cases "tgs ! idx \<in> otags")
    case False
    have "idx + length as \<le> length tgs" using Cons.prems by simp
    from Cons.IH [OF this] show ?thesis
      using i False by (simp only: vars_loop_Cons) (simp add: d)
  next
    case True
    show ?thesis
    proof (cases "sparse a")
      case False
      have "idx + length as \<le> length tgs" using Cons.prems by simp
      from Cons.IH [OF this] show ?thesis
        using i True False by (simp only: vars_loop_Cons) simp
    next
      case sp: True
      have "Suc idx + length as \<le> length tgs" using Cons.prems by simp
      from Cons.IH [OF this] show ?thesis
        using i True sp by (simp only: vars_loop_Cons) (simp add: d)
    qed
  qed
qed

text \<open>
  The closure as one expression: the state with which the callback is entered, the
  restored flags, the call of the engine.
\<close>

lemma queued_lambda_Inr:
  "vars_loop (arrs t) (tags t) (output_tags t) 0 [] [] = Inr (idx, vars, vars2) \<Longrightarrow>
   queued_lambda t s =
     Inr (Engine_PushSync t vars vars2
           (snd (set_is_recording (is_recording (imperative s))
             (snd (set_is_training (is_training (imperative s))
               (call_func (func t)
                 (snd (set_is_training (training t)
                   (snd (set_is_recording (recording t) s))))))))))"
  by (simp add: queued_lambda_def Let_def set_is_recording_def set_is_training_def)

text \<open>
  C3. The closure that a worker runs (for a call with as many tags as arrays, so that
  the loop over \<open>arrs\<close> stays in range) returns; the callback is entered with the flags
  set to the values given to \<^verbatim>\<open>Push\<close>, whatever the flags were, and with nothing else
  changed; when the closure is done the two flags have the values they had before it
  began, whatever the callback did to them.
\<close>

theorem flag_scoping:
  assumes "length (tags t) = length (arrs t)"
  shows "\<exists>s' idx vars vars2. queued_lambda t s = Inr s'
    \<and> vars_loop (arrs t) (tags t) (output_tags t) 0 [] [] = Inr (idx, vars, vars2)
    \<and> trace s' = trace s @ [CallFunc (recording t) (training t), PushSync (ctx t) vars vars2]
    \<and> imperative s' =
        (func t ((imperative s)\<lparr>is_recording := recording t, is_training := training t\<rparr>))
          \<lparr>is_training := is_training (imperative s),
           is_recording := is_recording (imperative s)\<rparr>
    \<and> is_recording (imperative s') = is_recording (imperative s)
    \<and> is_training (imperative s') = is_training (imperative s)"
proof -
  have "0 + length (arrs t) \<le> length (tags t)" using assms by simp
  from vars_loop_closed [OF this, of "output_tags t" "[]" "[]"]
  obtain idx vars vars2 where
    v: "vars_loop (arrs t) (tags t) (output_tags t) 0 [] [] = Inr (idx, vars, vars2)"
    by blast
  show ?thesis
    by (simp add: queued_lambda_Inr [OF v] v)
qed

theorem flag_scoping_witness:
  "length (tags sample_task) = length (arrs sample_task)
   \<and> \<not> is_recording ambient0 \<and> is_training ambient0
   \<and> recording sample_task \<and> \<not> training sample_task
   \<and> (\<exists>s' vars vars2. queued_lambda sample_task (CustomOperator env0 ambient0) = Inr s'
        \<and> trace s' = [CallFunc True False, PushSync 7 vars vars2]
        \<and> \<not> is_recording (imperative s') \<and> is_training (imperative s'))"
proof -
  from flag_scoping [OF sample_lengths(1), of "CustomOperator env0 ambient0"]
  obtain s' vars vars2 where
    s': "queued_lambda sample_task (CustomOperator env0 ambient0) = Inr s'"
    "trace s' = trace (CustomOperator env0 ambient0)
        @ [CallFunc (recording sample_task) (training sample_task), PushSync (ctx sample_task) vars vars2]"
    "is_recording (imperative s') = is_recording (imperative (CustomOperator env0 ambient0))"
    "is_training (imperative s') = is_training (imperative (CustomOperator env0 ambient0))"
    by blast
  have "trace s' = [CallFunc True False, PushSync 7 vars vars2]"
    using s'(2) by (simp add: sample_task_def CustomOperator_def)
  moreover have "\<not> is_recording (imperative s') \<and> is_training (imperative s')"
    using s'(3,4) by (simp add: CustomOperator_def ambient0_def)
  ultimately show ?thesis
    using sample_lengths(1) s'(1) by (auto simp: ambient0_def sample_task_def)
qed

text \<open>
  C9. The loop at lines 104 to 115, one array later: the array's variable is added to
  the read list in any case, and to the write list exactly when the tag at position
  \<open>idx\<close> is an output tag and the array is sparse, \<open>idx\<close> being the number of variables
  added to the write list so far and growing only then. With as many tags as arrays
  the loop stays in range, the read list is the variables of all arrays in order, and
  the write list is the variables of the first \<open>n\<close> sparse arrays, \<open>n\<close> being the number
  of leading tags that are output tags (or the number of sparse arrays, if smaller);
  these are the lists the closure hands to \<^verbatim>\<open>Engine::PushSync\<close>. In the example of the
  spec the write list is empty, while the sparse array with an output tag has
  variable 2.
\<close>

theorem write_vars_by_append_count:
  "vars_loop (as @ [a]) tgs otags 0 [] [] =
     (case vars_loop as tgs otags 0 [] [] of
        Inl e \<Rightarrow> Inl e
      | Inr (idx, vars, vars2) \<Rightarrow>
          if \<not> idx < length tgs then Inl OutOfRange
          else if tgs ! idx \<in> otags \<and> sparse a
          then Inr (idx + 1, vars @ [var a], vars2 @ [var a])
          else Inr (idx, vars @ [var a], vars2))
   \<and> (length tgs = length as \<longrightarrow>
        vars_loop as tgs otags 0 [] [] =
          Inr (min (length (filter sparse as)) (length (takeWhile (\<lambda>tg. tg \<in> otags) tgs)),
               map var as,
               map var (take (min (length (filter sparse as))
                                  (length (takeWhile (\<lambda>tg. tg \<in> otags) tgs)))
                          (filter sparse as))))
   \<and> (length (tags t) = length (arrs t) \<longrightarrow>
        (\<exists>s'. queued_lambda t s = Inr s' \<and>
          last (trace s') = PushSync (ctx t) (map var (arrs t))
            (map var (take (min (length (filter sparse (arrs t)))
                                (length (takeWhile (\<lambda>tg. tg \<in> output_tags t) (tags t))))
                        (filter sparse (arrs t))))))
   \<and> vars_loop (arrs sample_task) (tags sample_task) (output_tags sample_task) 0 [] []
        = Inr (0, [var dense_a, var sparse_b], [])
   \<and> map var (qualifying sample_task) = [var sparse_b]"
proof (intro conjI impI)
  show "vars_loop (as @ [a]) tgs otags 0 [] [] =
     (case vars_loop as tgs otags 0 [] [] of
        Inl e \<Rightarrow> Inl e
      | Inr (idx, vars, vars2) \<Rightarrow>
          if \<not> idx < length tgs then Inl OutOfRange
          else if tgs ! idx \<in> otags \<and> sparse a
          then Inr (idx + 1, vars @ [var a], vars2 @ [var a])
          else Inr (idx, vars @ [var a], vars2))"
    by (simp only: vars_loop_append vars_loop_Cons vars_loop.simps(1))
next
  assume "length tgs = length as"
  then have "0 + length as \<le> length tgs" by simp
  from vars_loop_closed [OF this, of otags "[]" "[]"]
  show "vars_loop as tgs otags 0 [] [] =
          Inr (min (length (filter sparse as)) (length (takeWhile (\<lambda>tg. tg \<in> otags) tgs)),
               map var as,
               map var (take (min (length (filter sparse as))
                                  (length (takeWhile (\<lambda>tg. tg \<in> otags) tgs)))
                          (filter sparse as)))"
    by simp
next
  assume "length (tags t) = length (arrs t)"
  then have "0 + length (arrs t) \<le> length (tags t)" by simp
  from vars_loop_closed [OF this, of "output_tags t" "[]" "[]"]
  have v: "vars_loop (arrs t) (tags t) (output_tags t) 0 [] [] =
     Inr (min (length (filter sparse (arrs t))) (length (takeWhile (\<lambda>tg. tg \<in> output_tags t) (tags t))),
          map var (arrs t),
          map var (take (min (length (filter sparse (arrs t)))
                                (length (takeWhile (\<lambda>tg. tg \<in> output_tags t) (tags t))))
                        (filter sparse (arrs t))))"
    by simp
  show "\<exists>s'. queued_lambda t s = Inr s' \<and>
          last (trace s') = PushSync (ctx t) (map var (arrs t))
            (map var (take (min (length (filter sparse (arrs t)))
                                (length (takeWhile (\<lambda>tg. tg \<in> output_tags t) (tags t))))
                        (filter sparse (arrs t))))"
    by (simp add: queued_lambda_Inr [OF v])
next
  show "vars_loop (arrs sample_task) (tags sample_task) (output_tags sample_task) 0 [] []
        = Inr (0, [var dense_a, var sparse_b], [])"
    by (simp add: sample_task_def dense_a_def sparse_b_def)
  show "map var (qualifying sample_task) = [var sparse_b]"
    by (simp add: qualifying_def sample_task_def dense_a_def sparse_b_def sparse_def)
qed

theorem write_vars_by_append_count_witness:
  "length (tags sample_task) = length (arrs sample_task)
   \<and> vars_loop [dense_a, sparse_b] [0, 1] {1} 0 [] [] = Inr (0, [1, 2], [])
   \<and> (\<exists>s'. queued_lambda sample_task (CustomOperator env0 ambient0) = Inr s'
        \<and> last (trace s') = PushSync 7 [1, 2] [])"
proof -
  note th = write_vars_by_append_count
    [of "[dense_a]" sparse_b "[0, 1]" "{1}" sample_task "CustomOperator env0 ambient0"]
  have a: "vars_loop [dense_a, sparse_b] [0, 1] {1} 0 [] [] = Inr (0, [1, 2], [])"
    using th by (simp add: dense_a_def sparse_b_def)
  from th sample_lengths(1)
  obtain s' where s': "queued_lambda sample_task (CustomOperator env0 ambient0) = Inr s'"
    "last (trace s') = PushSync (ctx sample_task) (map var (arrs sample_task))
            (map var (take (min (length (filter sparse (arrs sample_task)))
                                (length (takeWhile (\<lambda>tg. tg \<in> output_tags sample_task) (tags sample_task))))
                        (filter sparse (arrs sample_task))))"
    by blast
  have "last (trace s') = PushSync 7 [1, 2] []"
    using s'(2) by (simp add: sample_task_def dense_a_def sparse_b_def sparse_def)
  then show ?thesis using sample_lengths(1) a s'(1) by blast
qed

subsection \<open>The pool, step by step\<close>

lemma enqueued_append [simp]: "enqueued (es @ fs) = enqueued es @ enqueued fs"
  by (induction es rule: enqueued.induct) simp_all

lemma dequeued_append [simp]: "dequeued (es @ fs) = dequeued es @ dequeued fs"
  by (induction es rule: dequeued.induct) simp_all

lemma executed_append [simp]: "executed (es @ fs) = executed es @ executed fs"
  by (induction es rule: executed.induct) simp_all

lemma joined_append [simp]: "joined (es @ fs) = joined es @ joined fs"
  by (induction es rule: joined.induct) simp_all

lemma spawn_events [simp]:
  "enqueued (replicate n SpawnThread) = []"
  "dequeued (replicate n SpawnThread) = []"
  "executed (replicate n SpawnThread) = []"
  "joined (replicate n SpawnThread) = []"
  by (induction n) simp_all

lemma update_events [simp]:
  "enqueued (map (\<lambda>(dst, src). CallSparseUpdateChunk dst src) ps) = []"
  "dequeued (map (\<lambda>(dst, src). CallSparseUpdateChunk dst src) ps) = []"
  "executed (map (\<lambda>(dst, src). CallSparseUpdateChunk dst src) ps) = []"
  "joined (map (\<lambda>(dst, src). CallSparseUpdateChunk dst src) ps) = []"
  by (induction ps; simp add: split_paired_all)+

lemma pool_of_emit:
  "pool_of (emit ev s) =
     (pool_of s)\<lparr>p_enqueued := p_enqueued (pool_of s) @ enqueued [ev],
                 p_dequeued := p_dequeued (pool_of s) @ dequeued [ev],
                 p_executed := p_executed (pool_of s) @ executed [ev],
                 p_joined := p_joined (pool_of s) @ joined [ev]\<rparr>"
  by (simp add: pool_of_def cap_def)

lemma pool_of_fields [simp]:
  "p_workers (pool_of s) = workers s"
  "p_free (pool_of s) = num_free_threads s"
  "p_queue (pool_of s) = queue s"
  "p_naive (pool_of s) = naive_engine s"
  "p_destructing (pool_of s) = destructing s"
  "p_mutex (pool_of s) = mutex s"
  "p_cap (pool_of s) = cap s"
  "p_dtor (pool_of s) = dtor s"
  "p_enqueued (pool_of s) = enqueued (trace s)"
  "p_dequeued (pool_of s) = dequeued (trace s)"
  "p_executed (pool_of s) = executed (trace s)"
  "p_joined (pool_of s) = joined (trace s)"
  by (simp_all add: pool_of_def)

lemma pool_of_rebind_all [simp]: "pool_of (rebind_all ps s) = pool_of s"
  by (simp add: pool_of_def cap_def rebind_all_trace)

lemma sparse_loop_rebind:
  "sparse_loop t i out_idx s = Inr s' \<Longrightarrow> \<exists>ps. s' = rebind_all ps s"
proof (induction t i out_idx s rule: sparse_loop.induct)
  case (1 t i out_idx s)
  show ?case
  proof (cases "i < length (arrs t)")
    case False
    then have "s' = rebind_all [] s" using "1.prems" by (simp add: sparse_loop.simps [of t i])
    then show ?thesis by blast
  next
    case True
    show ?thesis
    proof (cases "storage_type (arrs t ! i) = kDefaultStorage \<or>
           storage_type (arrs t ! i) = kUndefinedStorage")
      case d: True
      have "sparse_loop t (i + 1) out_idx s = Inr s'"
        using "1.prems" True d by (subst (asm) sparse_loop.simps) simp
      from "1.IH"(1) [OF True d this] show ?thesis .
    next
      case d: False
      have tg: "i < length (tags t)"
        using "1.prems" True d by (subst (asm) sparse_loop.simps) (simp split: if_splits)
      then have ntg: "\<not> \<not> i < length (tags t)" by simp
      show ?thesis
      proof (cases "tags t ! i \<in> output_tags t")
        case False
        have "sparse_loop t (i + 1) out_idx s = Inr s'"
          using "1.prems" True d tg False by (subst (asm) sparse_loop.simps) simp
        from "1.IH"(3) [OF True d ntg False this] show ?thesis .
      next
        case mem: True
        have k: "out_idx < length (outputs t)"
          using "1.prems" True d tg mem by (subst (asm) sparse_loop.simps) (simp split: if_splits)
        then have nk: "\<not> \<not> out_idx < length (outputs t)" by simp
        have "sparse_loop t (i + 1) (out_idx + 1)
                (SparseUpdateChunk (outputs t ! out_idx) (arrs t ! i) s) = Inr s'"
          using "1.prems" True d tg mem k by (subst (asm) sparse_loop.simps) simp
        from "1.IH"(2) [OF True d ntg mem nk this]
        obtain ps where "s' = rebind_all ps (SparseUpdateChunk (outputs t ! out_idx) (arrs t ! i) s)"
          by blast
        then have "s' = rebind_all ((outputs t ! out_idx, arrs t ! i) # ps) s" by simp
        then show ?thesis by blast
      qed
    qed
  qed
qed

lemma pool_of_sparse_loop:
  "sparse_loop t i out_idx s = Inr s' \<Longrightarrow> pool_of s' = pool_of s"
  by (auto dest: sparse_loop_rebind)

lemma pool_of_async_on_complete [simp]: "pool_of (async_on_complete c s) = pool_of s"
  by (simp add: pool_of_def cap_def)

lemma pool_of_call_func [simp]: "pool_of (call_func f s) = pool_of s"
  by (simp add: pool_of_def cap_def)

lemma pool_of_Push_naive:
  "Push_naive t s = Inr s' \<Longrightarrow> pool_of s' = pool_of s"
  by (auto simp: Push_naive_def split: sum.splits dest: pool_of_sparse_loop)

lemma pool_of_engine_update [simp]: "pool_of (s\<lparr>engine := e\<rparr>) = pool_of s"
  by (simp add: pool_of_def cap_def)

lemma pool_of_imperative_update [simp]: "pool_of (s\<lparr>imperative := e\<rparr>) = pool_of s"
  by (simp add: pool_of_def cap_def)

lemma pool_of_patch_closure:
  "patch_closure t s = Inr s' \<Longrightarrow> pool_of s' = pool_of s"
  by (auto simp: patch_closure_def split: sum.splits dest: pool_of_sparse_loop)

lemma pool_of_Engine_PushSync [simp]: "pool_of (Engine_PushSync t vars vars2 s) = pool_of s"
  by (simp add: pool_of_def cap_def)

lemma pool_of_queued_lambda:
  "queued_lambda t s = Inr s' \<Longrightarrow> pool_of s' = pool_of s"
  by (auto simp: queued_lambda_def Let_def set_is_recording_def set_is_training_def
           split: sum.splits prod.splits)

lemma pool_of_Register [simp]: "pool_of (Register op_type creator s) = pool_of s"
  by (simp add: Register_def Let_def pool_of_def cap_def)

declare SetNumThreads_loop.simps [simp del]

lemma SetNumThreads_loop_eq:
  "SetNumThreads_loop i n s =
     s\<lparr>workers := workers s @ replicate (nat (n - i)) Created,
       num_free_threads := num_free_threads s + of_nat (nat (n - i)),
       trace := trace s @ replicate (nat (n - i)) SpawnThread\<rparr>"
proof (induction i n s rule: SetNumThreads_loop.induct)
  case (1 i n s)
  show ?case
  proof (cases "i < n")
    case False
    then show ?thesis by (simp add: SetNumThreads_loop.simps [of i])
  next
    case True
    then have k: "nat (n - i) = Suc (nat (n - (i + 1)))" by simp
    show ?thesis
      using True "1.IH" [OF True]
      by (subst SetNumThreads_loop.simps)
         (simp add: k emit_def)
  qed
qed

lemma ThreadTarget_eq:
  "ThreadTarget l s =
     (if queue s \<noteq> []
      then (Running (hd (queue s)),
            emit (QPop (hd (queue s)))
              (s\<lparr>num_free_threads := num_free_threads s - 1, queue := tl (queue s)\<rparr>))
      else if destructing s then (Exited, s) else (Waiting, s))"
  by (cases l) simp_all

lemma resume_Some: "resume w = Some l \<Longrightarrow> w = Created \<or> w = Woken \<or> w = Relock"
  by (cases w) simp_all

lemma pool_of_SetNumThreads:
  "pool_of (SetNumThreads num_threads s) =
     (pool_of s)\<lparr>p_workers := workers s @ replicate (spawned s num_threads) Created,
                 p_free := num_free_threads s + of_nat (spawned s num_threads)\<rparr>"
  by (simp add: SetNumThreads_def Let_def SetNumThreads_loop_eq pool_of_def cap_def spawned_def)

lemma pool_of_mutex_update [simp]: "pool_of (s\<lparr>mutex := b\<rparr>) = (pool_of s)\<lparr>p_mutex := b\<rparr>"
  by (simp add: pool_of_def cap_def)

lemma pool_of_notify_all [simp]:
  "pool_of (notify_all s) = (pool_of s)\<lparr>p_workers := map wake (workers s)\<rparr>"
  by (simp add: notify_all_def pool_of_def cap_def)

lemma wake_simps [simp]:
  "free (wake w) = free w"
  "held (map wake ws) = held ws"
  "wake w = Exited \<longleftrightarrow> w = Exited"
  "Exited = wake w \<longleftrightarrow> w = Exited"
  "map wake (replicate n Created) = replicate n Created"
proof -
  show "free (wake w) = free w" by (cases w) simp_all
  show "held (map wake ws) = held ws" by (induction ws rule: held.induct) simp_all
  show "wake w = Exited \<longleftrightarrow> w = Exited" by (cases w) simp_all
  show "Exited = wake w \<longleftrightarrow> w = Exited" by (cases w) simp_all
  show "map wake (replicate n Created) = replicate n Created" by simp
qed

lemma free_o_wake [simp]: "free \<circ> wake = free"
  by (rule ext) simp

lemma filter_free_wake [simp]: "length (filter free (map wake ws)) = length (filter free ws)"
  by (induction ws) simp_all

lemma Exited_wake [simp]: "Exited \<in> wake ` S \<longleftrightarrow> Exited \<in> S"
  by (auto simp: image_iff)

lemma Waiting_wake [simp]: "Waiting \<notin> wake ` S"
proof
  assume "Waiting \<in> wake ` S"
  then obtain w where "Waiting = wake w" by blast
  then show False by (cases w) simp_all
qed

lemma pool_of_Push_grow:
  "pool_of (Push_grow s) =
     (pool_of s)\<lparr>p_workers := map wake (workers s) @
           replicate (spawned s (static_cast_int (int (length (workers s)) +
              static_cast_int (int (length (queue s)) - int (unat (num_free_threads s))))))
             Created,
         p_free := num_free_threads s +
           of_nat (spawned s (static_cast_int (int (length (workers s)) +
              static_cast_int (int (length (queue s)) - int (unat (num_free_threads s)))))),
         p_mutex := False\<rparr>"
proof -
  let ?n = "static_cast_int (int (length (workers s)) +
              static_cast_int (int (length (queue s)) - int (unat (num_free_threads s))))"
  have "workers (SetNumThreads ?n s) = workers s @ replicate (spawned s ?n) Created"
    using arg_cong [OF pool_of_SetNumThreads [of ?n s], of p_workers] by simp
  then show ?thesis
    by (simp add: Push_grow_def CreateThreads_def pool_of_SetNumThreads)
qed

lemma step_cases_pool [consumes 1, case_names dequeue exit wait spurious fn incr same
    enqueue_grow enqueue_notify grow dtor_naive dtor_pooled join dtor_end]:
  assumes "step s s'"
  obtains
    (dequeue) k t where "\<not> mutex s" "k < length (workers s)"
      "workers s ! k = Created \<or> workers s ! k = Woken \<or> workers s ! k = Relock"
      "queue s \<noteq> []" "t = hd (queue s)"
      "pool_of s' = (pool_of s)\<lparr>p_workers := (workers s)[k := Running t],
         p_free := num_free_threads s - 1, p_queue := tl (queue s),
         p_dequeued := dequeued (trace s) @ [t]\<rparr>"
  | (exit) k where "\<not> mutex s" "k < length (workers s)"
      "workers s ! k = Created \<or> workers s ! k = Woken \<or> workers s ! k = Relock"
      "queue s = []" "destructing s"
      "pool_of s' = (pool_of s)\<lparr>p_workers := (workers s)[k := Exited]\<rparr>"
  | (wait) k where "\<not> mutex s" "k < length (workers s)"
      "workers s ! k = Created \<or> workers s ! k = Woken \<or> workers s ! k = Relock"
      "queue s = []" "\<not> destructing s"
      "pool_of s' = (pool_of s)\<lparr>p_workers := (workers s)[k := Waiting]\<rparr>"
  | (spurious) k where "k < length (workers s)" "workers s ! k = Waiting"
      "pool_of s' = (pool_of s)\<lparr>p_workers := (workers s)[k := Woken]\<rparr>"
  | (fn) k t where "k < length (workers s)" "workers s ! k = Running t"
      "pool_of s' = (pool_of s)\<lparr>p_workers := (workers s)[k := Returned],
         p_executed := executed (trace s) @ [t]\<rparr>"
  | (incr) k where "k < length (workers s)" "workers s ! k = Returned"
      "pool_of s' = (pool_of s)\<lparr>p_workers := (workers s)[k := Relock],
         p_free := num_free_threads s + 1\<rparr>"
  | (same) "pool_of s' = pool_of s"
  | (enqueue_grow) t where "\<not> naive_engine s" "\<not> mutex s" "dtor s = NotStarted"
      "unat (num_free_threads s) < length (queue s) + 1"
      "pool_of s' = (pool_of s)\<lparr>p_queue := queue s @ [t], p_mutex := True,
         p_enqueued := enqueued (trace s) @ [t]\<rparr>"
  | (enqueue_notify) t where "\<not> naive_engine s" "\<not> mutex s" "dtor s = NotStarted"
      "\<not> unat (num_free_threads s) < length (queue s) + 1"
      "pool_of s' = (pool_of s)\<lparr>p_workers := map wake (workers s),
         p_queue := queue s @ [t], p_enqueued := enqueued (trace s) @ [t]\<rparr>"
  | (grow) "mutex s"
      "pool_of s' = (pool_of s)\<lparr>p_workers := map wake (workers s) @
           replicate (spawned s (static_cast_int (int (length (workers s)) +
              static_cast_int (int (length (queue s)) - int (unat (num_free_threads s))))))
             Created,
         p_free := num_free_threads s +
           of_nat (spawned s (static_cast_int (int (length (workers s)) +
              static_cast_int (int (length (queue s)) - int (unat (num_free_threads s)))))),
         p_mutex := False\<rparr>"
  | (dtor_naive) "naive_engine s" "\<not> mutex s" "dtor s = NotStarted"
      "pool_of s' = (pool_of s)\<lparr>p_dtor := Finished\<rparr>"
  | (dtor_pooled) "\<not> naive_engine s" "\<not> mutex s" "dtor s = NotStarted"
      "pool_of s' = (pool_of s)\<lparr>p_workers := map wake (workers s),
         p_destructing := True, p_dtor := Joining 0\<rparr>"
  | (join) k where "dtor s = Joining k" "k < length (workers s)" "workers s ! k = Exited"
      "pool_of s' = (pool_of s)\<lparr>p_dtor := Joining (k + 1),
         p_joined := joined (trace s) @ [k]\<rparr>"
  | (dtor_end) k where "dtor s = Joining k" "\<not> k < length (workers s)"
      "pool_of s' = (pool_of s)\<lparr>p_dtor := Finished\<rparr>"
  using assms
proof (cases rule: step.cases)
  case (worker_locked k l w s1)
  note r = resume_Some [OF worker_locked(4)]
  show ?thesis
  proof (cases "queue s = []")
    case False
    have "pool_of s' = (pool_of s)\<lparr>p_workers := (workers s)[k := Running (hd (queue s))],
         p_free := num_free_threads s - 1, p_queue := tl (queue s),
         p_dequeued := dequeued (trace s) @ [hd (queue s)]\<rparr>"
      using worker_locked(1,5) False by (auto simp: ThreadTarget_eq pool_of_def cap_def)
    with worker_locked r False show ?thesis by (intro dequeue [of k "hd (queue s)"]) simp_all
  next
    case True
    show ?thesis
    proof (cases "destructing s")
      case d: True
      have "pool_of s' = (pool_of s)\<lparr>p_workers := (workers s)[k := Exited]\<rparr>"
        using worker_locked(1,5) True d by (auto simp: ThreadTarget_eq pool_of_def cap_def)
      with worker_locked r True d show ?thesis by (intro exit [of k]) simp_all
    next
      case d: False
      have "pool_of s' = (pool_of s)\<lparr>p_workers := (workers s)[k := Waiting]\<rparr>"
        using worker_locked(1,5) True d by (auto simp: ThreadTarget_eq pool_of_def cap_def)
      with worker_locked r True d show ?thesis by (intro wait [of k]) simp_all
    qed
  qed
next
  case (spurious_wakeup k)
  have "pool_of s' = (pool_of s)\<lparr>p_workers := (workers s)[k := Woken]\<rparr>"
    using spurious_wakeup(1) by (simp add: pool_of_def cap_def)
  with spurious_wakeup show ?thesis by (intro spurious [of k]) simp_all
next
  case (worker_fn k t s1)
  have "pool_of s1 = pool_of s" using worker_fn(4) by (rule pool_of_queued_lambda)
  then have "pool_of s' = (pool_of s)\<lparr>p_workers := (workers s)[k := Returned],
         p_executed := executed (trace s) @ [t]\<rparr>"
    using worker_fn(1) by (simp add: pool_of_def cap_def)
  with worker_fn show ?thesis by (intro fn [of k t]) simp_all
next
  case (worker_incr k)
  have "pool_of s' = (pool_of s)\<lparr>p_workers := (workers s)[k := Relock],
         p_free := num_free_threads s + 1\<rparr>"
    using worker_incr(1) by (simp add: pool_of_def cap_def)
  with worker_incr show ?thesis by (intro incr [of k]) simp_all
next
  case (push_naive t)
  then show ?thesis by (intro same) (simp add: pool_of_Push_naive)
next
  case (push_enqueue t)
  show ?thesis
  proof (cases "unat (num_free_threads s) < length (queue s) + 1")
    case True
    have "pool_of s' = (pool_of s)\<lparr>p_queue := queue s @ [t], p_mutex := True,
         p_enqueued := enqueued (trace s) @ [t]\<rparr>"
      using push_enqueue(1,3) True by (simp add: Push_enqueue_def Let_def pool_of_def cap_def)
    with push_enqueue True show ?thesis by (intro enqueue_grow [of t]) simp_all
  next
    case False
    have "pool_of s' = (pool_of s)\<lparr>p_workers := map wake (workers s),
         p_queue := queue s @ [t], p_enqueued := enqueued (trace s) @ [t]\<rparr>"
      using push_enqueue(1,3) False
      by (simp add: Push_enqueue_def Let_def notify_all_def pool_of_def cap_def)
    with push_enqueue False show ?thesis by (intro enqueue_notify [of t]) simp_all
  qed
next
  case push_grow
  have "pool_of s' = (pool_of s)\<lparr>p_workers := map wake (workers s) @
           replicate (spawned s (static_cast_int (int (length (workers s)) +
              static_cast_int (int (length (queue s)) - int (unat (num_free_threads s))))))
             Created,
         p_free := num_free_threads s +
           of_nat (spawned s (static_cast_int (int (length (workers s)) +
              static_cast_int (int (length (queue s)) - int (unat (num_free_threads s)))))),
         p_mutex := False\<rparr>"
    using push_grow(1) by (simp only: pool_of_Push_grow)
  with push_grow show ?thesis by (intro grow) simp_all
next
  case (register op_type creator)
  then show ?thesis by (intro same) simp
next
  case (engine_run before t after)
  then show ?thesis by (intro same) (simp add: pool_of_patch_closure)
next
  case destructor_begin
  show ?thesis
  proof (cases "naive_engine s")
    case True
    have "pool_of s' = (pool_of s)\<lparr>p_dtor := Finished\<rparr>"
      using destructor_begin(1) True by (simp add: dtor_begin_def pool_of_def cap_def)
    with destructor_begin True show ?thesis by (intro dtor_naive) simp_all
  next
    case False
    have "pool_of s' = (pool_of s)\<lparr>p_workers := map wake (workers s),
         p_destructing := True, p_dtor := Joining 0\<rparr>"
      using destructor_begin(1) False
      by (simp add: dtor_begin_def notify_all_def pool_of_def cap_def)
    with destructor_begin False show ?thesis by (intro dtor_pooled) simp_all
  qed
next
  case (destructor_join k)
  have "pool_of s' = (pool_of s)\<lparr>p_dtor := Joining (k + 1),
         p_joined := joined (trace s) @ [k]\<rparr>"
    using destructor_join(1) by (simp add: dtor_join_def pool_of_def cap_def)
  with destructor_join show ?thesis by (intro join [of k]) simp_all
next
  case (destructor_end k)
  have "pool_of s' = (pool_of s)\<lparr>p_dtor := Finished\<rparr>"
    using destructor_end(1) by (simp add: pool_of_def cap_def)
  with destructor_end show ?thesis by (intro dtor_end [of k]) simp_all
qed

subsection \<open>Size of the pool and count of free threads\<close>

lemma cap_bound: "cap s < 2 ^ 31"
  using sint_lt [of "GetEnv (MXNET_CUSTOM_OP_NUM_THREADS (getenv s)) (16 :: 32 word)"]
  by (simp add: cap_def)

lemma static_cast_int_id: "- (2 ^ 31) \<le> x \<Longrightarrow> x < 2 ^ 31 \<Longrightarrow> static_cast_int x = x"
  by (simp add: static_cast_int_def signed_take_bit_int_eq_self)

lemma spawned_eq:
  "int (length (workers s)) < 2 ^ 31 \<Longrightarrow>
   spawned s n = nat (min (cap s) n - int (length (workers s)))"
proof -
  assume "int (length (workers s)) < 2 ^ 31"
  moreover have "- (2 ^ 31) \<le> int (length (workers s))" by simp
  ultimately have "static_cast_int (int (length (workers s))) = int (length (workers s))"
    by (rule static_cast_int_id [rotated])
  then show ?thesis by (simp add: spawned_def)
qed

lemma pool_of_CustomOperator:
  "pool_of (CustomOperator e a) =
     \<lparr> p_workers = [], p_free = 0, p_queue = [],
       p_naive = (''NaiveEngine'' = GetEnv (MXNET_ENGINE_TYPE e) ''''),
       p_destructing = False, p_mutex = False,
       p_cap = sint (GetEnv (MXNET_CUSTOM_OP_NUM_THREADS e) 16), p_dtor = NotStarted,
       p_enqueued = [], p_dequeued = [], p_executed = [], p_joined = [] \<rparr>"
  by (simp add: pool_of_def CustomOperator_def cap_def)

lemma size_bound: "int n \<le> max 0 c \<Longrightarrow> c < 2 ^ 31 \<Longrightarrow> int n < 2 ^ 31"
  by (cases "0 \<le> c") (simp_all add: max_def)

lemma inv_size_reachable: "reachable s \<Longrightarrow> inv_size (pool_of s)"
proof (induction rule: reachable.induct)
  case (constructed e a)
  show ?case
    using cap_bound [of "CustomOperator e a"]
    by (simp add: inv_size_def pool_of_CustomOperator cap_def CustomOperator_def)
next
  case (stepped s s')
  from stepped(2) show ?case
  proof (cases rule: step_cases_pool)
    case grow
    have "int (length (workers s)) < 2 ^ 31"
      using stepped.IH by (auto simp: inv_size_def intro: size_bound)
    from spawned_eq [OF this] show ?thesis
      using stepped.IH grow(2) by (simp add: inv_size_def)
  qed (use stepped.IH in \<open>simp_all add: inv_size_def\<close>)
qed

lemma filter_update_count:
  "k < length xs \<Longrightarrow>
   length (filter P (xs[k := y])) + (if P (xs ! k) then 1 else 0) =
   length (filter P xs) + (if P y then 1 else 0)"
proof (induction xs arbitrary: k)
  case Nil
  then show ?case by simp
next
  case (Cons x xs)
  show ?case
  proof (cases k)
    case 0
    then show ?thesis by simp
  next
    case (Suc j)
    with Cons.prems have "j < length xs" by simp
    from Cons.IH [OF this] show ?thesis using Suc by simp
  qed
qed

lemma filter_free_pos:
  "k < length ws \<Longrightarrow> free (ws ! k) \<Longrightarrow> 0 < length (filter free ws)"
  by (metis filter_empty_conv length_greater_0_conv nth_mem)

lemma unat_incr: "unat (x :: 32 word) + n < 2 ^ 32 \<Longrightarrow> unat (x + of_nat n) = unat x + n"
proof -
  assume a: "unat x + n < 2 ^ 32"
  then have "n < 2 ^ 32" by simp
  then have n: "unat (of_nat n :: 32 word) = n" by (simp add: unat_of_nat)
  have "unat x + unat (of_nat n :: 32 word) < 2 ^ LENGTH(32)" using a n by simp
  then have "unat (x + of_nat n) = unat x + unat (of_nat n :: 32 word)"
    by (simp only: unat_add_lem)
  then show ?thesis using n by simp
qed

lemma count_bound: "int n \<le> max 0 c \<Longrightarrow> c < 2 ^ 31 \<Longrightarrow> m \<le> n \<Longrightarrow> m < 2 ^ 32"
  by (cases "0 \<le> c") (simp_all add: max_def)

lemma inv_free_reachable: "reachable s \<Longrightarrow> inv_free (pool_of s)"
proof (induction rule: reachable.induct)
  case (constructed e a)
  show ?case by (simp add: inv_free_def pool_of_CustomOperator)
next
  case (stepped s s')
  have sz: "int (length (workers s)) \<le> max 0 (cap s)" "cap s < 2 ^ 31"
    using inv_size_reachable [OF stepped(1)] by (simp_all add: inv_size_def)
  have sz': "int (length (workers s')) \<le> max 0 (cap s')" "cap s' < 2 ^ 31"
    using inv_size_reachable [OF reachable.stepped [OF stepped(1,2)]]
    by (simp_all add: inv_size_def)
  have fr: "unat (num_free_threads s) = length (filter free (workers s))"
    using stepped.IH by (simp add: inv_free_def)
  have le: "length (filter free (workers s)) \<le> length (workers s)" by simp
  from stepped(2) show ?case
  proof (cases rule: step_cases_pool)
    case (dequeue k t)
    have f: "free (workers s ! k)" using dequeue(3) by auto
    from filter_free_pos [OF dequeue(2) f] have "num_free_threads s \<noteq> 0"
      using fr by auto
    then have "unat (num_free_threads s - 1) = unat (num_free_threads s) - 1"
      by (rule unat_minus_one)
    moreover from filter_update_count [OF dequeue(2), of free "Running t"] f
    have "length (filter free ((workers s)[k := Running t])) = length (filter free (workers s)) - 1"
      by simp
    ultimately show ?thesis using fr dequeue(6) by (simp add: inv_free_def)
  next
    case (exit k)
    have f: "free (workers s ! k)" using exit(3) by auto
    from filter_update_count [OF exit(2), of free Exited] f
    show ?thesis using fr exit(6) by (simp add: inv_free_def)
  next
    case (wait k)
    have f: "free (workers s ! k)" using wait(3) by auto
    from filter_update_count [OF wait(2), of free Waiting] f
    show ?thesis using fr wait(6) by (simp add: inv_free_def)
  next
    case (spurious k)
    from filter_update_count [OF spurious(1), of free Woken] spurious(2)
    show ?thesis using fr spurious(3) by (simp add: inv_free_def)
  next
    case (fn k t)
    from filter_update_count [OF fn(1), of free Returned] fn(2)
    show ?thesis using fr fn(3) by (simp add: inv_free_def)
  next
    case (incr k)
    from filter_update_count [OF incr(1), of free Relock] incr(2)
    have c: "length (filter free ((workers s)[k := Relock])) = length (filter free (workers s)) + 1"
      by simp
    have "length (filter free ((workers s)[k := Relock])) \<le> length (workers s)"
      by (metis length_filter_le length_list_update)
    then have "unat (num_free_threads s) + 1 \<le> length (workers s)" using c fr by simp
    then have "unat (num_free_threads s) + 1 < 2 ^ 32" by (rule count_bound [OF sz])
    from unat_incr [OF this] show ?thesis using fr c incr(3) by (simp add: inv_free_def)
  next
    case grow
    let ?n = "spawned s (static_cast_int (int (length (workers s)) +
              static_cast_int (int (length (queue s)) - int (unat (num_free_threads s)))))"
    have "length (workers s') = length (workers s) + ?n"
      using arg_cong [OF grow(2), of p_workers] by simp
    with le have "unat (num_free_threads s) + ?n \<le> length (workers s')"
      unfolding fr by linarith
    then have "unat (num_free_threads s) + ?n < 2 ^ 32" by (rule count_bound [OF sz'])
    from unat_incr [OF this] show ?thesis using fr grow(2) by (simp add: inv_free_def)
  qed (use fr in \<open>simp_all add: inv_free_def\<close>)
qed

lemma pool_of_eqD:
  "pool_of s' = P \<Longrightarrow> workers s' = p_workers P \<and> cap s' = p_cap P"
  by (auto simp flip: pool_of_fields)

lemma step_workers_mono:
  assumes "step s s'"
  shows "length (workers s) \<le> length (workers s') \<and> cap s' = cap s"
  using assms
proof (cases rule: step_cases_pool)
  case (dequeue k t)
  from pool_of_eqD [OF dequeue(6)] show ?thesis by simp
next
  case (exit k)
  from pool_of_eqD [OF exit(6)] show ?thesis by simp
next
  case (wait k)
  from pool_of_eqD [OF wait(6)] show ?thesis by simp
next
  case (spurious k)
  from pool_of_eqD [OF spurious(3)] show ?thesis by simp
next
  case (fn k t)
  from pool_of_eqD [OF fn(3)] show ?thesis by simp
next
  case (incr k)
  from pool_of_eqD [OF incr(3)] show ?thesis by simp
next
  case same
  from pool_of_eqD [OF same] show ?thesis by simp
next
  case (enqueue_grow t)
  from pool_of_eqD [OF enqueue_grow(5)] show ?thesis by simp
next
  case (enqueue_notify t)
  from pool_of_eqD [OF enqueue_notify(5)] show ?thesis by simp
next
  case grow
  from pool_of_eqD [OF grow(2)] show ?thesis by simp
next
  case dtor_naive
  from pool_of_eqD [OF dtor_naive(4)] show ?thesis by simp
next
  case dtor_pooled
  from pool_of_eqD [OF dtor_pooled(4)] show ?thesis by simp
next
  case (join k)
  from pool_of_eqD [OF join(4)] show ?thesis by simp
next
  case (dtor_end k)
  from pool_of_eqD [OF dtor_end(3)] show ?thesis by simp
qed

lemma steps_workers_mono:
  "step\<^sup>*\<^sup>* s s' \<Longrightarrow> length (workers s) \<le> length (workers s') \<and> cap s' = cap s"
proof (induction rule: rtranclp_induct)
  case base
  show ?case by simp
next
  case (step y z)
  from step_workers_mono [OF step(2)] step.IH show ?case by simp
qed

lemma workers_CreateThreads:
  assumes "int (length (workers s)) < 2 ^ 31"
    and "- (2 ^ 31) \<le> int (length (workers s)) + delta"
    and "int (length (workers s)) + delta < 2 ^ 31"
  shows "CreateThreads delta s =
     s\<lparr>workers := workers s @
         replicate (nat (min (cap s) (int (length (workers s)) + delta)
                      - int (length (workers s)))) Created,
       num_free_threads := num_free_threads s +
         of_nat (nat (min (cap s) (int (length (workers s)) + delta)
                      - int (length (workers s)))),
       trace := trace s @
         replicate (nat (min (cap s) (int (length (workers s)) + delta)
                      - int (length (workers s)))) SpawnThread\<rparr>"
proof -
  have a: "static_cast_int (int (length (workers s)) + delta) = int (length (workers s)) + delta"
    using assms(2,3) by (rule static_cast_int_id)
  have "- (2 ^ 31) \<le> int (length (workers s))" by simp
  then have b: "static_cast_int (int (length (workers s))) = int (length (workers s))"
    using assms(1) by (rule static_cast_int_id)
  show ?thesis
    by (simp add: CreateThreads_def SetNumThreads_def Let_def SetNumThreads_loop_eq a b cap_def)
qed

subsection \<open>Order of the queue, shutdown\<close>

lemma inv_fifo_reachable: "reachable s \<Longrightarrow> inv_fifo (pool_of s)"
proof (induction rule: reachable.induct)
  case (constructed e a)
  show ?case by (simp add: inv_fifo_def pool_of_CustomOperator)
next
  case (stepped s s')
  from stepped(2) show ?case
  proof (cases rule: step_cases_pool)
    case (dequeue k t)
    have "queue s = t # tl (queue s)" using dequeue(4,5) by simp
    then have "dequeued (trace s) @ queue s = (dequeued (trace s) @ [t]) @ tl (queue s)"
      by (metis append.assoc append_Cons append_Nil)
    then show ?thesis using stepped.IH dequeue(6) by (simp add: inv_fifo_def)
  qed (use stepped.IH in \<open>simp_all add: inv_fifo_def\<close>)
qed

lemma held_append [simp]: "held (ws @ vs) = held ws @ held vs"
  by (induction ws rule: held.induct) simp_all

lemma held_replicate_Created [simp]: "held (replicate n Created) = []"
  by (induction n) simp_all

lemma held_Cons: "held (w # ws) = held [w] @ held ws"
  by (cases w) simp_all

lemma held_update:
  "k < length ws \<Longrightarrow>
   mset (held (ws[k := w])) + mset (held [ws ! k]) = mset (held ws) + mset (held [w])"
proof -
  assume k: "k < length ws"
  then have "ws = take k ws @ [ws ! k] @ drop (Suc k) ws"
    by (simp add: Cons_nth_drop_Suc)
  then have "held ws = held (take k ws) @ held [ws ! k] @ held (drop (Suc k) ws)"
    by (metis held_append)
  moreover have "held (ws[k := w]) = held (take k ws) @ held [w] @ held (drop (Suc k) ws)"
    using k held_Cons [of w "drop (Suc k) ws"] by (simp add: upd_conv_take_nth_drop)
  ultimately show ?thesis by simp
qed

lemma held_idle:
  "w = Created \<or> w = Woken \<or> w = Relock \<Longrightarrow> held [w] = []"
  by auto

lemma inv_held_reachable: "reachable s \<Longrightarrow> inv_held (pool_of s)"
proof (induction rule: reachable.induct)
  case (constructed e a)
  show ?case by (simp add: inv_held_def pool_of_CustomOperator)
next
  case (stepped s s')
  note ih = stepped.IH [unfolded inv_held_def pool_of_fields]
  from stepped(2) show ?case
  proof (cases rule: step_cases_pool)
    case (dequeue k t)
    from held_update [OF dequeue(2), of "Running t"] held_idle [OF dequeue(3)]
    show ?thesis using ih dequeue(6) by (simp add: inv_held_def)
  next
    case (exit k)
    from held_update [OF exit(2), of Exited] held_idle [OF exit(3)]
    show ?thesis using ih exit(6) by (simp add: inv_held_def)
  next
    case (wait k)
    from held_update [OF wait(2), of Waiting] held_idle [OF wait(3)]
    show ?thesis using ih wait(6) by (simp add: inv_held_def)
  next
    case (spurious k)
    from held_update [OF spurious(1), of Woken]
    show ?thesis using ih spurious(2,3) by (simp add: inv_held_def)
  next
    case (fn k t)
    from held_update [OF fn(1), of Returned]
    show ?thesis using ih fn(2,3) by (simp add: inv_held_def)
  next
    case (incr k)
    from held_update [OF incr(1), of Relock]
    show ?thesis using ih incr(2,3) by (simp add: inv_held_def)
  qed (use ih in \<open>simp_all add: inv_held_def\<close>)
qed

lemma single_held:
  "length ws \<le> 1 \<Longrightarrow> k < length ws \<Longrightarrow>
   held ws = held [ws ! k] \<and> held (ws[k := w]) = held [w]"
  by (cases ws) auto

lemma inv_single_reachable:
  "reachable s \<Longrightarrow> length (workers s) \<le> 1 \<Longrightarrow> inv_single (pool_of s)"
proof (induction rule: reachable.induct)
  case (constructed e a)
  show ?case by (simp add: inv_single_def pool_of_CustomOperator)
next
  case (stepped s s')
  have one: "length (workers s) \<le> 1"
    using step_workers_mono [OF stepped(2)] stepped.prems by simp
  note ih = stepped.IH [OF one, unfolded inv_single_def pool_of_fields]
  from stepped(2) show ?case
  proof (cases rule: step_cases_pool)
    case (dequeue k t)
    from single_held [OF one dequeue(2), of "Running t"] held_idle [OF dequeue(3)]
    show ?thesis using ih dequeue(6) by (simp add: inv_single_def)
  next
    case (exit k)
    from single_held [OF one exit(2), of Exited] held_idle [OF exit(3)]
    show ?thesis using ih exit(6) by (simp add: inv_single_def)
  next
    case (wait k)
    from single_held [OF one wait(2), of Waiting] held_idle [OF wait(3)]
    show ?thesis using ih wait(6) by (simp add: inv_single_def)
  next
    case (spurious k)
    from single_held [OF one spurious(1), of Woken]
    show ?thesis using ih spurious(2,3) by (simp add: inv_single_def)
  next
    case (fn k t)
    from single_held [OF one fn(1), of Returned]
    show ?thesis using ih fn(2,3) by (simp add: inv_single_def)
  next
    case (incr k)
    from single_held [OF one incr(1), of Relock]
    show ?thesis using ih incr(2,3) by (simp add: inv_single_def)
  qed (use ih in \<open>simp_all add: inv_single_def\<close>)
qed

lemma set_update_not_Exited:
  "w \<noteq> Exited \<Longrightarrow> Exited \<in> set (ws[k := w]) \<Longrightarrow> Exited \<in> set ws"
  by (metis in_set_conv_nth length_list_update nth_list_update_eq nth_list_update_neq)

lemma inv_shutdown_reachable: "reachable s \<Longrightarrow> inv_shutdown (pool_of s)"
proof (induction rule: reachable.induct)
  case (constructed e a)
  show ?case by (simp add: inv_shutdown_def pool_of_CustomOperator)
next
  case (stepped s s')
  note ih = stepped.IH [unfolded inv_shutdown_def pool_of_fields]
  from stepped(2) show ?case
  proof (cases rule: step_cases_pool)
    case (dequeue k t)
    have "Exited \<notin> set (workers s)" using ih dequeue(4) by blast
    then have "Exited \<notin> set ((workers s)[k := Running t])"
      using set_update_not_Exited [of "Running t" "workers s" k] by blast
    then show ?thesis using ih dequeue(2,6) by (auto simp: inv_shutdown_def)
  next
    case (exit k)
    show ?thesis using ih exit(2,4,5,6) by (auto simp: inv_shutdown_def)
  next
    case (wait k)
    have "Exited \<notin> set (workers s)" using ih wait(5) by blast
    then have "Exited \<notin> set ((workers s)[k := Waiting])"
      using set_update_not_Exited [of Waiting "workers s" k] by blast
    then show ?thesis using ih wait(2,6) by (auto simp: inv_shutdown_def)
  next
    case (spurious k)
    have "Exited \<in> set ((workers s)[k := Woken]) \<Longrightarrow> Exited \<in> set (workers s)"
      using set_update_not_Exited [of Woken "workers s" k] by blast
    then show ?thesis using ih spurious(1,3) by (auto simp: inv_shutdown_def)
  next
    case (fn k t)
    have "Exited \<in> set ((workers s)[k := Returned]) \<Longrightarrow> Exited \<in> set (workers s)"
      using set_update_not_Exited [of Returned "workers s" k] by blast
    then show ?thesis using ih fn(1,3) by (auto simp: inv_shutdown_def)
  next
    case (incr k)
    have "Exited \<in> set ((workers s)[k := Relock]) \<Longrightarrow> Exited \<in> set (workers s)"
      using set_update_not_Exited [of Relock "workers s" k] by blast
    then show ?thesis using ih incr(1,3) by (auto simp: inv_shutdown_def)
  next
    case (enqueue_grow t)
    have "Exited \<notin> set (workers s)" using ih enqueue_grow(3) by auto
    then show ?thesis using ih enqueue_grow by (auto simp: inv_shutdown_def)
  next
    case (enqueue_notify t)
    have "Exited \<notin> set (workers s)" using ih enqueue_notify(3) by auto
    then show ?thesis using ih enqueue_notify by (auto simp: inv_shutdown_def)
  next
    case grow
    have "Exited \<notin> set (workers s)" using ih grow(1) by auto
    then show ?thesis using ih grow by (auto simp: inv_shutdown_def)
  next
    case dtor_pooled
    have "Exited \<notin> set (workers s)" using ih dtor_pooled(3) by auto
    then show ?thesis using ih dtor_pooled by (auto simp: inv_shutdown_def)
  qed (use ih in \<open>auto simp: inv_shutdown_def\<close>)
qed

lemma inv_join_update:
  assumes "inv_join P" "k < length (p_workers P)" "p_workers P ! k \<noteq> Exited" "p_dtor P \<noteq> NotStarted"
  shows "inv_join (P\<lparr>p_workers := (p_workers P)[k := w]\<rparr>)"
proof (cases "p_dtor P")
  case NotStarted
  then show ?thesis using assms(4) by simp
next
  case (Joining n)
  then have a: "n \<le> length (p_workers P)" "\<forall>j<n. p_workers P ! j = Exited" "p_joined P = [0..<n]"
    using assms(1) by (simp_all add: inv_join_def)
  have "\<not> k < n" using a(2) assms(3) by blast
  then have "\<forall>j<n. (p_workers P)[k := w] ! j = Exited" using a(2) by simp
  then show ?thesis using Joining a by (simp add: inv_join_def)
next
  case Finished
  then have "p_naive P \<and> p_joined P = [] \<or>
     (\<forall>j<length (p_workers P). p_workers P ! j = Exited) \<and> p_joined P = [0..<length (p_workers P)]"
    using assms(1) by (simp add: inv_join_def)
  then have "p_naive P \<and> p_joined P = []" using assms(2,3) by blast
  then show ?thesis using Finished by (simp add: inv_join_def)
qed

lemma inv_join_idle:
  assumes "inv_join (pool_of s)" "k < length (workers s)" "workers s ! k \<noteq> Exited"
    and "pool_of s' = (pool_of s)\<lparr>p_workers := (workers s)[k := w]\<rparr>"
  shows "inv_join (pool_of s')"
proof (cases "dtor s = NotStarted")
  case True
  then show ?thesis using assms(1,4) by (simp add: inv_join_def)
next
  case False
  have "inv_join ((pool_of s)\<lparr>p_workers := (p_workers (pool_of s))[k := w]\<rparr>)"
    using assms(2,3) False by (intro inv_join_update [OF assms(1)]) simp_all
  then show ?thesis using assms(4) by simp
qed

lemma inv_join_reachable: "reachable s \<Longrightarrow> inv_join (pool_of s)"
proof (induction rule: reachable.induct)
  case (constructed e a)
  show ?case by (simp add: inv_join_def pool_of_CustomOperator)
next
  case (stepped s s')
  note sh = inv_shutdown_reachable [OF stepped(1), unfolded inv_shutdown_def pool_of_fields]
  note ih = stepped.IH
  from stepped(2) show ?case
  proof (cases rule: step_cases_pool)
    case (dequeue k t)
    have ne: "workers s ! k \<noteq> Exited" using dequeue(3) by auto
    have "pool_of s' = (pool_of s)\<lparr>p_workers := (workers s)[k := Running t]\<rparr>
            \<lparr>p_free := num_free_threads s - 1, p_queue := tl (queue s),
              p_dequeued := dequeued (trace s) @ [t]\<rparr>"
      using dequeue(6) by simp
    moreover have "inv_join ((pool_of s)\<lparr>p_workers := (workers s)[k := Running t]\<rparr>)"
    proof (cases "dtor s = NotStarted")
      case True
      then show ?thesis using ih by (simp add: inv_join_def)
    next
      case False
      then show ?thesis
        using inv_join_update [OF ih, of k "Running t"] dequeue(2) ne by simp
    qed
    ultimately show ?thesis by (simp add: inv_join_def)
  next
    case (exit k)
    show ?thesis
    proof (cases "dtor s")
      case NotStarted
      then show ?thesis using ih exit(6) by (simp add: inv_join_def)
    next
      case (Joining n)
      have "\<forall>j<n. workers s ! j = Exited" using ih Joining by (simp add: inv_join_def)
      then have "\<forall>j<n. (workers s)[k := Exited] ! j = Exited"
        using exit(2) by (simp add: nth_list_update)
      then show ?thesis using ih Joining exit(6) by (simp add: inv_join_def)
    next
      case Finished
      have n: "\<not> naive_engine s" using sh exit(2) by auto
      then have "\<forall>j<length (workers s). workers s ! j = Exited"
        using ih Finished by (simp add: inv_join_def)
      then have "\<forall>j<length (workers s). (workers s)[k := Exited] ! j = Exited"
        using exit(2) by (simp add: nth_list_update)
      then show ?thesis using ih Finished exit(6) n by (simp add: inv_join_def)
    qed
  next
    case (wait k)
    have "workers s ! k \<noteq> Exited" using wait(3) by auto
    from inv_join_idle [OF ih wait(2) this wait(6)] show ?thesis .
  next
    case (spurious k)
    have "workers s ! k \<noteq> Exited" using spurious(2) by auto
    from inv_join_idle [OF ih spurious(1) this spurious(3)] show ?thesis .
  next
    case (fn k t)
    have ne: "workers s ! k \<noteq> Exited" using fn(2) by auto
    have "inv_join ((pool_of s)\<lparr>p_workers := (workers s)[k := Returned]\<rparr>)"
    proof (cases "dtor s = NotStarted")
      case True
      then show ?thesis using ih by (simp add: inv_join_def)
    next
      case False
      then show ?thesis
        using inv_join_update [OF ih, of k Returned] fn(1) ne by simp
    qed
    then show ?thesis using fn(3) by (simp add: inv_join_def)
  next
    case (incr k)
    have ne: "workers s ! k \<noteq> Exited" using incr(2) by auto
    have "inv_join ((pool_of s)\<lparr>p_workers := (workers s)[k := Relock]\<rparr>)"
    proof (cases "dtor s = NotStarted")
      case True
      then show ?thesis using ih by (simp add: inv_join_def)
    next
      case False
      then show ?thesis
        using inv_join_update [OF ih, of k Relock] incr(1) ne by simp
    qed
    then show ?thesis using incr(3) by (simp add: inv_join_def)
  next
    case same
    then show ?thesis using ih by simp
  next
    case (enqueue_grow t)
    then show ?thesis using ih by (simp add: inv_join_def)
  next
    case (enqueue_notify t)
    then show ?thesis using ih by (simp add: inv_join_def)
  next
    case grow
    have "dtor s = NotStarted" using sh grow(1) by simp
    then show ?thesis using ih grow(2) by (simp add: inv_join_def)
  next
    case dtor_naive
    then show ?thesis using ih by (simp add: inv_join_def)
  next
    case dtor_pooled
    then show ?thesis using ih by (simp add: inv_join_def)
  next
    case (join k)
    have "\<forall>j<k. workers s ! j = Exited" using ih join(1) by (simp add: inv_join_def)
    then have "\<forall>j<Suc k. workers s ! j = Exited" using join(3) by (simp add: less_Suc_eq)
    then show ?thesis using ih join by (simp add: inv_join_def)
  next
    case (dtor_end k)
    have "k \<le> length (workers s)" using ih dtor_end(1) by (simp add: inv_join_def)
    then have "k = length (workers s)" using dtor_end(2) by simp
    then show ?thesis using ih dtor_end by (simp add: inv_join_def)
  qed
qed

lemma inv_first_reachable: "reachable s \<Longrightarrow> inv_first (pool_of s)"
proof (induction rule: reachable.induct)
  case (constructed e a)
  show ?case by (simp add: inv_first_def pool_of_CustomOperator)
next
  case (stepped s s')
  note ih = stepped.IH [unfolded inv_first_def pool_of_fields]
  note fifo = inv_fifo_reachable [OF stepped(1), unfolded inv_fifo_def pool_of_fields]
  note fr = inv_free_reachable [OF stepped(1), unfolded inv_free_def pool_of_fields]
  from stepped(2) show ?case
  proof (cases rule: step_cases_pool)
    case (enqueue_grow t)
    show ?thesis
    proof (cases "1 \<le> cap s \<and> workers s = []")
      case False
      then show ?thesis using enqueue_grow by (auto simp: inv_first_def)
    next
      case True
      then have "enqueued (trace s) = []" using ih enqueue_grow(1,2) by simp
      then have q: "queue s = []" using fifo by simp
      then show ?thesis using enqueue_grow q by (simp add: inv_first_def)
    qed
  next
    case (enqueue_notify t)
    have "workers s \<noteq> []" using fr enqueue_notify(4) by auto
    then show ?thesis using enqueue_notify by (simp add: inv_first_def)
  next
    case grow
    show ?thesis
    proof (cases "\<not> naive_engine s \<and> 1 \<le> cap s \<and> workers s = []")
      case False
      then show ?thesis using grow by (auto simp: inv_first_def)
    next
      case True
      then have q: "length (queue s) = 1" using ih grow(1) by simp
      have f: "unat (num_free_threads s) = 0" using fr True by simp
      have "spawned s (static_cast_int (int (length (workers s)) +
              static_cast_int (int (length (queue s)) - int (unat (num_free_threads s))))) = 1"
        using True by (simp add: q f spawned_def static_cast_int_id)
      then show ?thesis using grow(2) by (simp add: inv_first_def)
    qed
  qed (use ih in \<open>auto simp: inv_first_def\<close>)
qed

lemma held_all_Exited: "\<forall>w\<in>set ws. w = Exited \<Longrightarrow> held ws = []"
  by (induction ws) simp_all

lemma Push_grow_workers:
  assumes "int (length (workers s)) + int (length (queue s)) < 2 ^ 31"
    and "unat (num_free_threads s) \<le> length (workers s)"
  shows "workers (Push_grow s) = map wake (workers s) @
          replicate (nat (min (cap s)
              (int (length (workers s))
                + (int (length (queue s)) - int (unat (num_free_threads s))))
             - int (length (workers s)))) Created
        \<and> queue (Push_grow s) = queue s \<and> \<not> mutex (Push_grow s)
        \<and> last (trace (Push_grow s)) = NotifyAll
        \<and> Waiting \<notin> set (workers (Push_grow s))"
proof -
  define f where "f = unat (num_free_threads s)"
  have fl: "int f \<le> int (length (workers s))"
    using assms(2) by (simp only: f_def of_nat_le_iff)
  let ?d = "int (length (queue s)) - int f"
  have "- (2 ^ 31) \<le> ?d" using fl assms(1) by (simp; linarith)
  moreover have "?d < 2 ^ 31" using assms(1) by (simp; linarith)
  ultimately have d1: "static_cast_int ?d = ?d" by (rule static_cast_int_id)
  have g: "Push_grow s = (notify_all (CreateThreads ?d s))\<lparr>mutex := False\<rparr>"
    by (simp only: Push_grow_def f_def [symmetric] d1)
  have l: "int (length (workers s)) < 2 ^ 31" using assms(1) by (simp; linarith)
  have lo: "- (2 ^ 31) \<le> int (length (workers s)) + ?d" using fl by (simp; linarith)
  have hi: "int (length (workers s)) + ?d < 2 ^ 31" using assms(1) by (simp; linarith)
  note c = workers_CreateThreads [OF l lo hi]
  have w: "workers (Push_grow s) = map wake (workers s) @
          replicate (nat (min (cap s) (int (length (workers s)) + ?d)
             - int (length (workers s)))) Created"
    by (simp add: g c)
  then have "Waiting \<notin> set (workers (Push_grow s))" by simp
  moreover have "queue (Push_grow s) = queue s" by (simp add: g c)
  moreover have "\<not> mutex (Push_grow s)" by (simp add: g)
  moreover have "last (trace (Push_grow s)) = NotifyAll" by (simp add: g)
  ultimately show ?thesis using w unfolding f_def by blast
qed

lemma free_le_workers:
  "reachable s \<Longrightarrow> unat (num_free_threads s) \<le> length (workers s)"
  using inv_free_reachable [of s] by (simp add: inv_free_def)

lemma Push_enqueue_fields:
  "queue (Push_enqueue t s) = queue s @ [t]"
  "num_free_threads (Push_enqueue t s) = num_free_threads s"
  "cap (Push_enqueue t s) = cap s"
  "unat (num_free_threads s) < length (queue s) + 1 \<Longrightarrow> workers (Push_enqueue t s) = workers s"
  "unat (num_free_threads s) < length (queue s) + 1 \<Longrightarrow> mutex (Push_enqueue t s)"
  "\<not> unat (num_free_threads s) < length (queue s) + 1 \<Longrightarrow>
     Push_enqueue t s = notify_all (emit (QPush t) (s\<lparr>queue := queue s @ [t]\<rparr>))"
  by (simp_all add: Push_enqueue_def Let_def cap_def)

subsection \<open>The destructor comes to its end\<close>

lemma Waiting_update:
  "w \<noteq> Waiting \<Longrightarrow> Waiting \<in> set (ws[k := w]) \<Longrightarrow> Waiting \<in> set ws"
  by (metis in_set_conv_nth length_list_update nth_list_update_eq nth_list_update_neq)

lemma inv_awake_reachable: "reachable s \<Longrightarrow> inv_awake (pool_of s)"
proof (induction rule: reachable.induct)
  case (constructed e a)
  show ?case by (simp add: inv_awake_def pool_of_CustomOperator)
next
  case (stepped s s')
  note ih = stepped.IH [unfolded inv_awake_def pool_of_fields]
  note sh = inv_shutdown_reachable [OF stepped(1), unfolded inv_shutdown_def pool_of_fields]
  from stepped(2) show ?case
  proof (cases rule: step_cases_pool)
    case (dequeue k t)
    from Waiting_update [of "Running t" "workers s" k]
    show ?thesis using ih dequeue(6) by (auto simp: inv_awake_def)
  next
    case (exit k)
    from Waiting_update [of Exited "workers s" k]
    show ?thesis using ih exit(6) by (auto simp: inv_awake_def)
  next
    case (wait k)
    then show ?thesis by (simp add: inv_awake_def)
  next
    case (spurious k)
    from Waiting_update [of Woken "workers s" k]
    show ?thesis using ih spurious(3) by (auto simp: inv_awake_def)
  next
    case (fn k t)
    from Waiting_update [of Returned "workers s" k]
    show ?thesis using ih fn(3) by (auto simp: inv_awake_def)
  next
    case (incr k)
    from Waiting_update [of Relock "workers s" k]
    show ?thesis using ih incr(3) by (auto simp: inv_awake_def)
  next
    case (enqueue_grow t)
    then show ?thesis using ih by (simp add: inv_awake_def)
  next
    case (enqueue_notify t)
    then show ?thesis using ih by (simp add: inv_awake_def)
  next
    case grow
    have "\<not> destructing s" using sh grow(1) by auto
    then show ?thesis using grow(2) by (simp add: inv_awake_def)
  qed (use ih in \<open>simp_all add: inv_awake_def\<close>)
qed

lemma rank_update:
  "k < length ws \<Longrightarrow>
   sum_list (map rank (ws[k := w])) + rank (ws ! k) = sum_list (map rank ws) + rank w"
proof (induction ws arbitrary: k)
  case Nil
  then show ?case by simp
next
  case (Cons x ws)
  show ?case
  proof (cases k)
    case 0
    then show ?thesis by simp
  next
    case (Suc j)
    with Cons.prems have "j < length ws" by simp
    from Cons.IH [OF this] show ?thesis using Suc by simp
  qed
qed

lemma rank_idle: "w = Created \<or> w = Woken \<or> w = Relock \<Longrightarrow> rank w = 1"
  by auto

lemma shutdown_measure_decreases:
  assumes "reachable s" and "destructing s" and "step s s'"
  shows "pool_of s' = pool_of s \<or> shutdown_measure s' < shutdown_measure s"
proof -
  note sh = inv_shutdown_reachable [OF assms(1), unfolded inv_shutdown_def pool_of_fields]
  have started: "dtor s \<noteq> NotStarted" and unlocked: "\<not> mutex s"
    using sh assms(2) by auto
  from assms(3) show ?thesis
  proof (cases rule: step_cases_pool)
    case (dequeue k t)
    have q: "length (queue s) = Suc (length (tl (queue s)))"
      using dequeue(4) by (cases "queue s") simp_all
    from rank_update [OF dequeue(2), of "Running t"] rank_idle [OF dequeue(3)]
    have "sum_list (map rank ((workers s)[k := Running t])) = sum_list (map rank (workers s)) + 2"
      by simp
    then have "shutdown_measure s' < shutdown_measure s"
      using q by (simp add: shutdown_measure_def pool_measure_def dequeue(6))
    then show ?thesis ..
  next
    case (exit k)
    from rank_update [OF exit(2), of Exited] rank_idle [OF exit(3)]
    have "sum_list (map rank ((workers s)[k := Exited])) + 1 = sum_list (map rank (workers s))"
      by simp
    then have "shutdown_measure s' < shutdown_measure s"
      by (simp add: shutdown_measure_def pool_measure_def exit(6))
    then show ?thesis ..
  next
    case (wait k)
    then show ?thesis using assms(2) by simp
  next
    case (spurious k)
    from rank_update [OF spurious(1), of Woken] spurious(2)
    have "sum_list (map rank ((workers s)[k := Woken])) + 1 = sum_list (map rank (workers s))"
      by simp
    then have "shutdown_measure s' < shutdown_measure s"
      by (simp add: shutdown_measure_def pool_measure_def spurious(3))
    then show ?thesis ..
  next
    case (fn k t)
    from rank_update [OF fn(1), of Returned] fn(2)
    have "sum_list (map rank ((workers s)[k := Returned])) + 1 = sum_list (map rank (workers s))"
      by simp
    then have "shutdown_measure s' < shutdown_measure s"
      by (simp add: shutdown_measure_def pool_measure_def fn(3))
    then show ?thesis ..
  next
    case (incr k)
    from rank_update [OF incr(1), of Relock] incr(2)
    have "sum_list (map rank ((workers s)[k := Relock])) + 1 = sum_list (map rank (workers s))"
      by simp
    then have "shutdown_measure s' < shutdown_measure s"
      by (simp add: shutdown_measure_def pool_measure_def incr(3))
    then show ?thesis ..
  next
    case same
    then show ?thesis ..
  next
    case (enqueue_grow t)
    then show ?thesis using started by simp
  next
    case (enqueue_notify t)
    then show ?thesis using started by simp
  next
    case grow
    then show ?thesis using unlocked by simp
  next
    case dtor_naive
    then show ?thesis using started by simp
  next
    case dtor_pooled
    then show ?thesis using started by simp
  next
    case (join k)
    have "2 * (length (workers s) - (k + 1)) + 1 < 2 * (length (workers s) - k) + 1"
      using join(2) by simp
    then have "shutdown_measure s' < shutdown_measure s"
      by (simp add: shutdown_measure_def pool_measure_def join(1,4))
    then show ?thesis ..
  next
    case (dtor_end k)
    have "shutdown_measure s' < shutdown_measure s"
      by (simp add: shutdown_measure_def pool_measure_def dtor_end(1,3))
    then show ?thesis ..
  qed
qed

lemma queued_lambda_returns:
  "length (tags t) = length (arrs t) \<Longrightarrow> \<exists>s'. queued_lambda t s = Inr s'"
proof -
  assume "length (tags t) = length (arrs t)"
  then have "0 + length (arrs t) \<le> length (tags t)" by simp
  from vars_loop_closed [OF this, of "output_tags t" "[]" "[]"]
  obtain idx vars vars2 where
    "vars_loop (arrs t) (tags t) (output_tags t) 0 [] [] = Inr (idx, vars, vars2)"
    by blast
  from queued_lambda_Inr [OF this] show ?thesis by blast
qed

lemma held_member: "k < length ws \<Longrightarrow> ws ! k = Running t \<Longrightarrow> t \<in> set (held ws)"
proof (induction ws arbitrary: k)
  case Nil
  then show ?case by simp
next
  case (Cons w ws)
  show ?case
  proof (cases k)
    case 0
    then show ?thesis using Cons.prems by simp
  next
    case (Suc j)
    then have "t \<in> set (held ws)" using Cons.IH [of j] Cons.prems by simp
    then show ?thesis using held_Cons [of w ws] by simp
  qed
qed

lemma shutdown_progress:
  assumes "reachable s" and "destructing s" and "dtor s \<noteq> Finished"
    and "\<forall>t\<in>set (held (workers s)). length (tags t) = length (arrs t)"
  shows "\<exists>s'. step s s' \<and> shutdown_measure s' < shutdown_measure s"
proof -
  note sh = inv_shutdown_reachable [OF assms(1), unfolded inv_shutdown_def pool_of_fields]
  note aw = inv_awake_reachable [OF assms(1), unfolded inv_awake_def pool_of_fields]
  have unlocked: "\<not> mutex s" using sh assms(2) by auto
  obtain k where k: "dtor s = Joining k" using sh assms(2,3) by (cases "dtor s") auto
  have "\<exists>s'. step s s' \<and> pool_of s' \<noteq> pool_of s"
  proof (cases "k < length (workers s)")
    case False
    have "step s (s\<lparr>dtor := Finished\<rparr>)" using k False by (rule step.destructor_end)
    moreover have "dtor (s\<lparr>dtor := Finished\<rparr>) \<noteq> dtor s" using k by simp
    then have "pool_of (s\<lparr>dtor := Finished\<rparr>) \<noteq> pool_of s"
      by (metis pool_of_fields(8))
    ultimately show ?thesis by blast
  next
    case True
    have nw: "workers s ! k \<noteq> Waiting" using aw assms(2) True by (metis nth_mem)
    show ?thesis
    proof (cases "workers s ! k")
      case Created
      obtain w s1 where t: "ThreadTarget OuterWhile s = (w, s1)" by (cases "ThreadTarget OuterWhile s")
      have r: "resume (workers s ! k) = Some OuterWhile" using Created by simp
      have st: "step s (s1\<lparr>workers := (workers s1)[k := w]\<rparr>)"
        using unlocked True r t by (rule step.worker_locked)
      have "w \<noteq> Created" using t by (auto simp: ThreadTarget_eq split: if_splits)
      moreover have "workers s1 = workers s" using t by (auto simp: ThreadTarget_eq split: if_splits)
      ultimately have "workers (s1\<lparr>workers := (workers s1)[k := w]\<rparr>) ! k \<noteq> workers s ! k"
        using True Created by simp
      then have "pool_of (s1\<lparr>workers := (workers s1)[k := w]\<rparr>) \<noteq> pool_of s"
        by (metis pool_of_fields(1))
      with st show ?thesis by blast
    next
      case Waiting
      then show ?thesis using nw by simp
    next
      case Woken
      obtain w s1 where t: "ThreadTarget CvWait s = (w, s1)" by (cases "ThreadTarget CvWait s")
      have r: "resume (workers s ! k) = Some CvWait" using Woken by simp
      have st: "step s (s1\<lparr>workers := (workers s1)[k := w]\<rparr>)"
        using unlocked True r t by (rule step.worker_locked)
      have "w \<noteq> Woken" using t by (auto simp: ThreadTarget_eq split: if_splits)
      moreover have "workers s1 = workers s" using t by (auto simp: ThreadTarget_eq split: if_splits)
      ultimately have "workers (s1\<lparr>workers := (workers s1)[k := w]\<rparr>) ! k \<noteq> workers s ! k"
        using True Woken by simp
      then have "pool_of (s1\<lparr>workers := (workers s1)[k := w]\<rparr>) \<noteq> pool_of s"
        by (metis pool_of_fields(1))
      with st show ?thesis by blast
    next
      case (Running t)
      have "t \<in> set (held (workers s))" using True Running by (rule held_member)
      then have "length (tags t) = length (arrs t)" using assms(4) by blast
      from queued_lambda_returns [OF this, of s] obtain s1 where q: "queued_lambda t s = Inr s1"
        by blast
      have st: "step s ((emit (FnReturned t) s1)\<lparr>workers := (workers s1)[k := Returned]\<rparr>)"
        using True Running q by (rule step.worker_fn)
      have "workers s1 = workers s"
        using pool_of_queued_lambda [OF q] by (metis pool_of_fields(1))
      then have "workers ((emit (FnReturned t) s1)\<lparr>workers := (workers s1)[k := Returned]\<rparr>) ! k
          \<noteq> workers s ! k"
        using True Running by simp
      then have "pool_of ((emit (FnReturned t) s1)\<lparr>workers := (workers s1)[k := Returned]\<rparr>)
          \<noteq> pool_of s"
        by (metis pool_of_fields(1))
      with st show ?thesis by blast
    next
      case Returned
      have st: "step s (s\<lparr>num_free_threads := num_free_threads s + 1,
               workers := (workers s)[k := Relock]\<rparr>)"
        using True Returned by (rule step.worker_incr)
      have "workers (s\<lparr>num_free_threads := num_free_threads s + 1,
               workers := (workers s)[k := Relock]\<rparr>) ! k \<noteq> workers s ! k"
        using True Returned by simp
      then have "pool_of (s\<lparr>num_free_threads := num_free_threads s + 1,
               workers := (workers s)[k := Relock]\<rparr>) \<noteq> pool_of s"
        by (metis pool_of_fields(1))
      with st show ?thesis by blast
    next
      case Relock
      obtain w s1 where t: "ThreadTarget InnerWhile s = (w, s1)" by (cases "ThreadTarget InnerWhile s")
      have r: "resume (workers s ! k) = Some InnerWhile" using Relock by simp
      have st: "step s (s1\<lparr>workers := (workers s1)[k := w]\<rparr>)"
        using unlocked True r t by (rule step.worker_locked)
      have "w \<noteq> Relock" using t by (auto simp: ThreadTarget_eq split: if_splits)
      moreover have "workers s1 = workers s" using t by (auto simp: ThreadTarget_eq split: if_splits)
      ultimately have "workers (s1\<lparr>workers := (workers s1)[k := w]\<rparr>) ! k \<noteq> workers s ! k"
        using True Relock by simp
      then have "pool_of (s1\<lparr>workers := (workers s1)[k := w]\<rparr>) \<noteq> pool_of s"
        by (metis pool_of_fields(1))
      with st show ?thesis by blast
    next
      case Exited
      have st: "step s (dtor_join k s)" using k True Exited by (rule step.destructor_join)
      have "dtor (dtor_join k s) \<noteq> dtor s" using k by (simp add: dtor_join_def)
      then have "pool_of (dtor_join k s) \<noteq> pool_of s" by (metis pool_of_fields(8))
      with st show ?thesis by blast
    qed
  qed
  then obtain s' where s': "step s s'" "pool_of s' \<noteq> pool_of s" by blast
  from shutdown_measure_decreases [OF assms(1,2) s'(1)] s'(2)
  have "shutdown_measure s' < shutdown_measure s" by simp
  with s'(1) show ?thesis by blast
qed

subsection \<open>Computed runs\<close>

lemma exec_step: "exec a s = Some s' \<Longrightarrow> step s s'"
proof (cases a)
  case (Enqueue t)
  assume "exec a s = Some s'"
  then show ?thesis using Enqueue by (auto split: if_splits intro: step.push_enqueue)
next
  case Grow
  assume "exec a s = Some s'"
  then show ?thesis using Grow by (auto split: if_splits intro: step.push_grow)
next
  case (Lock k)
  assume "exec a s = Some s'"
  then show ?thesis using Lock
    by (auto split: if_splits option.splits prod.splits intro: step.worker_locked)
next
  case (Wake k)
  assume "exec a s = Some s'"
  then show ?thesis using Wake
    by (auto split: if_splits worker.splits intro: step.spurious_wakeup)
next
  case (Fn k)
  assume "exec a s = Some s'"
  then show ?thesis using Fn
    by (auto split: if_splits worker.splits sum.splits intro: step.worker_fn)
next
  case (Incr k)
  assume "exec a s = Some s'"
  then show ?thesis using Incr
    by (auto split: if_splits worker.splits intro: step.worker_incr)
next
  case DtorBegin
  assume "exec a s = Some s'"
  then show ?thesis using DtorBegin by (auto split: if_splits intro: step.destructor_begin)
next
  case (JoinWorker k)
  assume "exec a s = Some s'"
  then show ?thesis using JoinWorker
    by (auto split: if_splits worker.splits intro: step.destructor_join)
next
  case DtorEnd
  assume "exec a s = Some s'"
  then show ?thesis using DtorEnd
    by (auto split: if_splits dtor_pc.splits intro: step.destructor_end)
qed

lemma run_reachable: "run as s = Some s' \<Longrightarrow> reachable s \<Longrightarrow> reachable s'"
proof (induction as arbitrary: s)
  case Nil
  then show ?case by simp
next
  case (Cons a as)
  from Cons.prems(1) obtain s1 where e: "exec a s = Some s1" and r: "run as s1 = Some s'"
    by (auto split: option.splits)
  from exec_step [OF e] Cons.prems(2) have "reachable s1" by (rule reachable.stepped [rotated])
  from Cons.IH [OF r this] show ?case .
qed

lemma run_append:
  "run (as @ bs) s = (case run as s of None \<Rightarrow> None | Some s' \<Rightarrow> run bs s')"
  by (induction as arbitrary: s) (simp_all split: option.splits)

lemma run_steps: "run as s = Some s' \<Longrightarrow> step\<^sup>*\<^sup>* s s'"
proof (induction as arbitrary: s)
  case Nil
  then show ?case by simp
next
  case (Cons a as)
  from Cons.prems obtain s1 where e: "exec a s = Some s1" and r: "run as s1 = Some s'"
    by (auto split: option.splits)
  from exec_step [OF e] Cons.IH [OF r] show ?case by (rule converse_rtranclp_into_rtranclp)
qed

lemma the_run: "(case run as s of None \<Rightarrow> False | Some s' \<Rightarrow> True) \<Longrightarrow> run as s = Some (the (run as s))"
  by (cases "run as s") simp_all

lemma busy_run_ok:
  "run busy_run (CustomOperator env0 ambient0) = Some busy_state"
  unfolding busy_state_def by (rule the_run) code_simp

lemma drain_run_ok:
  "run drain_run (CustomOperator env_one ambient0) = Some drained_state"
  unfolding drained_state_def by (rule the_run) code_simp

lemma draining_run_ok:
  "run (take 7 drain_run) (CustomOperator env_one ambient0) = Some draining_state"
  unfolding draining_state_def by (rule the_run) code_simp

lemma stranded_run_ok:
  "run stranded_run (CustomOperator env_none ambient0) = Some stranded_state"
  unfolding stranded_state_def by (rule the_run) code_simp

lemma stranded_state_pool:
  "length (workers stranded_state) = 0" "\<not> naive_engine stranded_state"
  "dtor stranded_state = Finished" "cap stranded_state = 0"
  "map ctx (queue stranded_state) = [1]"
  "map ctx (enqueued (trace stranded_state)) = [1]"
  "length (dequeued (trace stranded_state)) = 0"
  "length (executed (trace stranded_state)) = 0"
  "length (joined (trace stranded_state)) = 0"
  "length (completions (trace stranded_state)) = 0"
  by code_simp+

lemma busy_state_pool:
  "length (workers busy_state) = 1" "num_free_threads busy_state = 0"
  "length (queue busy_state) = 0" "\<not> naive_engine busy_state" "\<not> mutex busy_state"
  "cap busy_state = 16" "length (held (workers busy_state)) = 1"
  "MXNET_CUSTOM_OP_NUM_THREADS (getenv busy_state) = None"
  by code_simp+

lemma drained_state_pool:
  "length (workers drained_state) = 1" "\<not> naive_engine drained_state"
  "dtor drained_state = Finished" "cap drained_state = 1"
  "map ctx (enqueued (trace drained_state)) = [1, 2, 3]"
  "map ctx (executed (trace drained_state)) = [1, 2, 3]"
  "joined (trace drained_state) = [0]"
  by code_simp+

lemma draining_state_pool:
  "destructing draining_state" "map ctx (queue draining_state) = [1, 2, 3]"
  "dtor draining_state = Joining 0" "length (held (workers draining_state)) = 0"
  "shutdown_measure draining_state = 13" "shutdown_measure draining_next = 12"
  by code_simp+

lemma draining_next_ok:
  "exec (Lock 0) draining_state = Some draining_next"
proof -
  have "run (take 8 drain_run) (CustomOperator env_one ambient0) = Some draining_next"
    unfolding draining_next_def by (rule the_run) code_simp
  moreover have "take 8 drain_run = take 7 drain_run @ [Lock 0]"
    by (simp add: drain_run_def)
  ultimately have "run (take 7 drain_run @ [Lock 0]) (CustomOperator env_one ambient0)
      = Some draining_next" by simp
  then have "run [Lock 0] draining_state = Some draining_next"
    using draining_run_ok by (simp only: run_append option.case)
  then show ?thesis
    by (cases "exec (Lock 0) draining_state") (simp_all del: exec.simps)
qed

lemma step_draining: "step draining_state draining_next"
  using draining_next_ok by (rule exec_step)

lemma cap_updates [simp]:
  "cap (emit ev s) = cap s"
  "cap (s\<lparr>mutex := b\<rparr>) = cap s"
  "cap (s\<lparr>queue := q\<rparr>) = cap s"
  by (simp_all add: cap_def)

lemma reachable_busy: "reachable busy_state"
  using run_reachable [OF busy_run_ok reachable.constructed] .

lemma reachable_drained: "reachable drained_state"
  using run_reachable [OF drain_run_ok reachable.constructed] .

lemma reachable_stranded: "reachable stranded_state"
  using run_reachable [OF stranded_run_ok reachable.constructed] .

lemma reachable_draining: "reachable draining_state"
  using run_reachable [OF draining_run_ok reachable.constructed] .

subsection \<open>The claims about the pool\<close>

text \<open>
  C5. In every reachable state the pool has at most as many workers as the thread
  limit (none if the limit is negative), the limit being 16 when
  \<^verbatim>\<open>MXNET_CUSTOM_OP_NUM_THREADS\<close> is unset and the same all along; no sequence of
  steps makes the pool smaller. \<^verbatim>\<open>CreateThreads(delta)\<close> aims at the current size
  plus \<open>delta\<close> (a sum within the range of \<^verbatim>\<open>int\<close>), cut down to the limit, and adds
  workers up to there; when this target is not above the current size it changes
  nothing at all.
\<close>

theorem pool_grows_up_to_cap:
  "(reachable s \<longrightarrow> int (length (workers s)) \<le> max 0 (cap s))
   \<and> (reachable s \<and> 0 \<le> cap s \<longrightarrow> int (length (workers s)) \<le> cap s)
   \<and> (MXNET_CUSTOM_OP_NUM_THREADS (getenv s) = None \<longrightarrow> cap s = 16)
   \<and> (step\<^sup>*\<^sup>* s s' \<longrightarrow> length (workers s) \<le> length (workers s') \<and> cap s' = cap s)
   \<and> (reachable s \<and> - (2 ^ 31) \<le> int (length (workers s)) + delta
        \<and> int (length (workers s)) + delta < 2 ^ 31 \<longrightarrow>
       workers (CreateThreads delta s) =
         workers s @ replicate (nat (min (cap s) (int (length (workers s)) + delta)
                                      - int (length (workers s)))) Created
       \<and> (min (cap s) (int (length (workers s)) + delta) \<le> int (length (workers s))
            \<longrightarrow> CreateThreads delta s = s))"
proof (intro conjI impI)
  assume "reachable s"
  from inv_size_reachable [OF this]
  show "int (length (workers s)) \<le> max 0 (cap s)" by (simp add: inv_size_def)
next
  assume "reachable s \<and> 0 \<le> cap s"
  with inv_size_reachable [of s]
  show "int (length (workers s)) \<le> cap s" by (simp add: inv_size_def)
next
  assume "MXNET_CUSTOM_OP_NUM_THREADS (getenv s) = None"
  then show "cap s = 16" by (simp add: cap_def GetEnv_def)
next
  assume "step\<^sup>*\<^sup>* s s'"
  from steps_workers_mono [OF this]
  show "length (workers s) \<le> length (workers s')" "cap s' = cap s" by simp_all
next
  assume a: "reachable s \<and> - (2 ^ 31) \<le> int (length (workers s)) + delta
        \<and> int (length (workers s)) + delta < 2 ^ 31"
  then have "inv_size (pool_of s)" by (simp add: inv_size_reachable)
  then have l: "int (length (workers s)) < 2 ^ 31"
    by (auto simp: inv_size_def intro: size_bound)
  note c = workers_CreateThreads [OF l conjunct1 [OF conjunct2 [OF a]] conjunct2 [OF conjunct2 [OF a]]]
  show "workers (CreateThreads delta s) =
         workers s @ replicate (nat (min (cap s) (int (length (workers s)) + delta)
                                      - int (length (workers s)))) Created"
    by (simp add: c)
  assume "min (cap s) (int (length (workers s)) + delta) \<le> int (length (workers s))"
  then have "nat (min (cap s) (int (length (workers s)) + delta) - int (length (workers s))) = 0"
    by simp
  then show "CreateThreads delta s = s" by (simp add: c)
qed

theorem pool_grows_up_to_cap_witness:
  "reachable drained_state \<and> 0 \<le> cap drained_state
   \<and> int (length (workers drained_state)) \<le> cap drained_state
   \<and> cap drained_state = 1
   \<and> MXNET_CUSTOM_OP_NUM_THREADS (getenv busy_state) = None \<and> cap busy_state = 16
   \<and> step\<^sup>*\<^sup>* (CustomOperator env_one ambient0) drained_state
   \<and> length (workers (CustomOperator env_one ambient0)) \<le> length (workers drained_state)
   \<and> reachable busy_state
   \<and> - (2 ^ 31) \<le> int (length (workers busy_state)) + 5
   \<and> int (length (workers busy_state)) + 5 < 2 ^ 31
   \<and> length (workers (CreateThreads 5 busy_state)) = 6
   \<and> CreateThreads 1 drained_state = drained_state"
proof -
  note a = pool_grows_up_to_cap [of drained_state drained_state 1]
  note b = pool_grows_up_to_cap [of busy_state busy_state 5]
  note c = pool_grows_up_to_cap [of "CustomOperator env_one ambient0" drained_state 0]
  have "int (length (workers drained_state)) \<le> cap drained_state"
    using a reachable_drained by (simp add: drained_state_pool)
  moreover have "cap busy_state = 16" using b busy_state_pool(8) by blast
  moreover have "length (workers (CustomOperator env_one ambient0)) \<le> length (workers drained_state)"
    using c run_steps [OF drain_run_ok] by blast
  moreover have "length (workers (CreateThreads 5 busy_state)) = 6"
    using b reachable_busy by (simp add: busy_state_pool)
  moreover have "CreateThreads 1 drained_state = drained_state"
    using a reachable_drained by (simp add: drained_state_pool)
  ultimately show ?thesis
    using reachable_drained reachable_busy run_steps [OF drain_run_ok]
    by (simp add: drained_state_pool busy_state_pool)
qed

text \<open>
  C8. In every reachable state \<^verbatim>\<open>num_free_threads\<close>, read as an unsigned number, is
  the number of workers that are not between popping a closure and the increment
  that follows its return; so it never wraps around below zero and never exceeds the
  number of workers.
\<close>

theorem free_count_within_pool:
  "reachable s \<Longrightarrow>
   unat (num_free_threads s) = length (filter free (workers s))
   \<and> unat (num_free_threads s) \<le> length (workers s)"
proof -
  assume "reachable s"
  from inv_free_reachable [OF this]
  have "unat (num_free_threads s) = length (filter free (workers s))"
    by (simp add: inv_free_def)
  then show ?thesis by simp
qed

theorem free_count_within_pool_witness:
  "reachable busy_state
   \<and> unat (num_free_threads busy_state) = length (filter free (workers busy_state))
   \<and> unat (num_free_threads busy_state) \<le> length (workers busy_state)
   \<and> unat (num_free_threads busy_state) = 0 \<and> length (workers busy_state) = 1"
  using free_count_within_pool [OF reachable_busy] reachable_busy
  by (simp add: busy_state_pool)

text \<open>
  C7. In every reachable state the tasks pushed so far are, in the order of the
  pushes, the tasks popped so far followed by the queue: tasks leave the queue in the
  order in which they entered it. When the pool has at most one worker, the closures
  that have returned are, in order, the first of the tasks pushed, followed by the one
  the worker holds, if any, and by the queue.
\<close>

theorem fifo_dequeue_order:
  "(reachable s \<longrightarrow> enqueued (trace s) = dequeued (trace s) @ queue s)
   \<and> (reachable s \<and> length (workers s) \<le> 1 \<longrightarrow>
        dequeued (trace s) = executed (trace s) @ held (workers s)
        \<and> enqueued (trace s) = executed (trace s) @ held (workers s) @ queue s)"
proof (intro conjI impI)
  assume "reachable s"
  from inv_fifo_reachable [OF this]
  show "enqueued (trace s) = dequeued (trace s) @ queue s" by (simp add: inv_fifo_def)
next
  assume a: "reachable s \<and> length (workers s) \<le> 1"
  then have "inv_single (pool_of s)" by (simp add: inv_single_reachable)
  then show d: "dequeued (trace s) = executed (trace s) @ held (workers s)"
    by (simp add: inv_single_def)
  from a have "inv_fifo (pool_of s)" by (simp add: inv_fifo_reachable)
  then show "enqueued (trace s) = executed (trace s) @ held (workers s) @ queue s"
    using d by (simp add: inv_fifo_def)
qed

theorem fifo_dequeue_order_witness:
  "reachable drained_state \<and> length (workers drained_state) \<le> 1
   \<and> enqueued (trace drained_state) = dequeued (trace drained_state) @ queue drained_state
   \<and> enqueued (trace drained_state) =
       executed (trace drained_state) @ held (workers drained_state) @ queue drained_state
   \<and> map ctx (enqueued (trace drained_state)) = [1, 2, 3]
   \<and> map ctx (executed (trace drained_state)) = [1, 2, 3]"
proof -
  have one: "length (workers drained_state) \<le> 1" by (simp add: drained_state_pool(1))
  from fifo_dequeue_order [of drained_state] reachable_drained one
  have "enqueued (trace drained_state) = dequeued (trace drained_state) @ queue drained_state"
    "enqueued (trace drained_state) =
       executed (trace drained_state) @ held (workers drained_state) @ queue drained_state"
    by blast+
  then show ?thesis
    using reachable_drained one drained_state_pool(5,6) by blast
qed




text \<open>
  C6, as the code has it. After the task is pushed, \<^verbatim>\<open>Push\<close> compares the length of the
  queue, which holds the tasks that no worker has taken yet, with
  \<^verbatim>\<open>num_free_threads\<close>; the tasks that are running are not counted. When the queue is
  longer, the pool grows by the difference, up to the thread limit; when it is not,
  the pool stays as it is; in both cases \<^verbatim>\<open>notify_all\<close> is the last call, and it
  wakes every worker that was blocked in \<^verbatim>\<open>cv_.wait\<close>, so that none is left waiting. The
  difference is taken from a second load of \<^verbatim>\<open>num_free_threads\<close>: the second part is
  about \<^verbatim>\<open>Push\<close> standing between its two loads, whatever workers have added to the
  count meanwhile. Sizes are within the range of \<^verbatim>\<open>int\<close>.
\<close>

theorem push_grows_by_queue_deficit:
  assumes "reachable s" and "\<not> naive_engine s"
    and "int (length (workers s)) + int (length (queue s)) + 1 < 2 ^ 31"
  shows "(\<not> mutex s \<longrightarrow>
      (\<exists>s'. Push t s = Inr s' \<and> queue s' = queue s @ [t] \<and> \<not> mutex s'
        \<and> last (trace s') = NotifyAll \<and> Waiting \<notin> set (workers s')
        \<and> (if unat (num_free_threads s) < length (queue s) + 1
            then workers s' = map wake (workers s) @
                   replicate (nat (min (cap s)
                       (int (length (workers s))
                         + (int (length (queue s)) + 1 - int (unat (num_free_threads s))))
                      - int (length (workers s)))) Created
            else workers s' = map wake (workers s)
                 \<and> trace s' = trace s @ [QPush t, NotifyAll])))
    \<and> (mutex s \<longrightarrow>
        workers (Push_grow s) = map wake (workers s) @
          replicate (nat (min (cap s)
              (int (length (workers s))
                + (int (length (queue s)) - int (unat (num_free_threads s))))
             - int (length (workers s)))) Created
        \<and> queue (Push_grow s) = queue s \<and> \<not> mutex (Push_grow s)
        \<and> last (trace (Push_grow s)) = NotifyAll
        \<and> Waiting \<notin> set (workers (Push_grow s)))"
proof (intro conjI impI)
  assume m: "\<not> mutex s"
  show "\<exists>s'. Push t s = Inr s' \<and> queue s' = queue s @ [t] \<and> \<not> mutex s'
        \<and> last (trace s') = NotifyAll \<and> Waiting \<notin> set (workers s')
        \<and> (if unat (num_free_threads s) < length (queue s) + 1
            then workers s' = map wake (workers s) @
                   replicate (nat (min (cap s)
                       (int (length (workers s))
                         + (int (length (queue s)) + 1 - int (unat (num_free_threads s))))
                      - int (length (workers s)))) Created
            else workers s' = map wake (workers s)
                 \<and> trace s' = trace s @ [QPush t, NotifyAll])"
  proof (cases "unat (num_free_threads s) < length (queue s) + 1")
    case False
    note e = Push_enqueue_fields(6) [OF False, of t]
    have "Push t s = Inr (Push_enqueue t s)"
      using assms(2) m by (simp add: Push_def Let_def e)
    then show ?thesis using False m by (simp add: e)
  next
    case True
    let ?s1 = "Push_enqueue t s"
    note e = Push_enqueue_fields(1-3) [of t s] Push_enqueue_fields(4,5) [OF True, of t]
    have b: "int (length (workers ?s1)) + int (length (queue ?s1)) < 2 ^ 31"
      using assms(3) by (simp add: e)
    have f: "unat (num_free_threads ?s1) \<le> length (workers ?s1)"
      using free_le_workers [OF assms(1)] by (simp add: e)
    have a: "int (length (queue s @ [t])) = int (length (queue s)) + 1" by simp
    have "Push t s = Inr (Push_grow ?s1)"
      using assms(2) e(5) by (simp add: Push_def Let_def)
    then show ?thesis
      using Push_grow_workers [OF b f] True unfolding e a by simp
  qed
next
  assume "mutex s"
  have b: "int (length (workers s)) + int (length (queue s)) < 2 ^ 31"
    using assms(3) by simp
  from Push_grow_workers [OF b free_le_workers [OF assms(1)]]
  show "workers (Push_grow s) = map wake (workers s) @
          replicate (nat (min (cap s)
              (int (length (workers s))
                + (int (length (queue s)) - int (unat (num_free_threads s))))
             - int (length (workers s)))) Created"
    "queue (Push_grow s) = queue s" "\<not> mutex (Push_grow s)"
    "last (trace (Push_grow s)) = NotifyAll"
    "Waiting \<notin> set (workers (Push_grow s))"
    by blast+
qed

theorem push_grows_by_queue_deficit_witness:
  "reachable busy_state \<and> \<not> naive_engine busy_state \<and> \<not> mutex busy_state
   \<and> int (length (workers busy_state)) + int (length (queue busy_state)) + 1 < 2 ^ 31
   \<and> (\<exists>s'. Push (task_no 2) busy_state = Inr s' \<and> length (workers s') = 2
         \<and> map ctx (queue s') = [2] \<and> last (trace s') = NotifyAll)"
proof -
  have b: "int (length (workers busy_state)) + int (length (queue busy_state)) + 1 < 2 ^ 31"
    by (simp add: busy_state_pool)
  have q: "queue busy_state = []" using busy_state_pool(3) by simp
  from push_grows_by_queue_deficit [OF reachable_busy busy_state_pool(4) b, of "task_no 2"]
    busy_state_pool(5)
  obtain s' where s': "Push (task_no 2) busy_state = Inr s'"
    "queue s' = queue busy_state @ [task_no 2]" "last (trace s') = NotifyAll"
    "workers s' = map wake (workers busy_state) @
               replicate (nat (min (cap busy_state)
                   (int (length (workers busy_state))
                     + (int (length (queue busy_state)) + 1 - int (unat (num_free_threads busy_state))))
                  - int (length (workers busy_state)))) Created"
    by (auto simp: busy_state_pool)
  have "length (workers s') = 2" using s'(4) by (simp add: busy_state_pool)
  moreover have "map ctx (queue s') = [2]" using s'(2) q by (simp add: task_no_def)
  ultimately show ?thesis
    using reachable_busy b s'(1,3) by (simp add: busy_state_pool)
qed

text \<open>
  C6 as the spec states it fails. One worker is running the first task, no thread is
  free and the queue is empty; a second task is pushed. Pending and running tasks are
  two and idle workers none, so the pool would have to grow by two, and the limit of
  16 allows it; the pool grows by one, from one worker to two.
\<close>

theorem deficit_counts_queued_tasks_only:
  "reachable busy_state \<and> \<not> naive_engine busy_state \<and> cap busy_state = 16
   \<and> length (workers busy_state) = 1
   \<and> length (queue (Push_enqueue (task_no 2) busy_state))
       + length (held (workers (Push_enqueue (task_no 2) busy_state))) = 2
   \<and> unat (num_free_threads (Push_enqueue (task_no 2) busy_state)) = 0
   \<and> Push (task_no 2) busy_state = Inr (Push_grow (Push_enqueue (task_no 2) busy_state))
   \<and> length (workers (Push_grow (Push_enqueue (task_no 2) busy_state))) = 2"
proof -
  have q: "queue busy_state = []" using busy_state_pool(3) by simp
  have e: "Push_enqueue (task_no 2) busy_state =
      (emit (QPush (task_no 2)) (busy_state\<lparr>queue := [task_no 2]\<rparr>))\<lparr>mutex := True\<rparr>"
    by (simp add: Push_enqueue_def Let_def busy_state_pool q)
  have p: "Push (task_no 2) busy_state = Inr (Push_grow (Push_enqueue (task_no 2) busy_state))"
    by (simp add: Push_def Let_def busy_state_pool) (simp add: e)
  have w: "length (workers (Push_grow (Push_enqueue (task_no 2) busy_state))) = 2"
    using arg_cong [OF pool_of_Push_grow [of "Push_enqueue (task_no 2) busy_state"], of p_workers]
    by (simp add: e busy_state_pool spawned_def static_cast_int_id)
  show ?thesis
    using reachable_busy p w by (simp add: busy_state_pool) (simp add: e busy_state_pool)
qed

end
